theory Spec2Isabelle
  imports Complex_Main
begin

section \<open>Python and numpy values used by the solver\<close>

text \<open>
  The exceptions the source can raise. A method of the solver is modelled as a function
  from the solver state to \<open>error + result\<close>: \<open>Inl\<close> is a raised exception, \<open>Inr\<close>
  a normal return.
\<close>

datatype error = AssertionError | ValueError | IndexError | TypeError

text \<open>
  A two-dimensional numpy array: its shape and its rows. An entry of the cost matrix is
  the real value of the array element; the arithmetic of the element type (float64 in the
  source's docstring) is not that of the reals and enters \<open>step1\<close> as a parameter.
\<close>

record 'a ndarray =
  nrows :: nat
  ncols :: nat
  cells :: "'a list list"

definition valid_array :: "'a ndarray \<Rightarrow> bool" where
  "valid_array A \<longleftrightarrow>
     length (cells A) = nrows A \<and> list_all (\<lambda>row. length row = ncols A) (cells A)"

definition shape :: "'a ndarray \<Rightarrow> nat \<times> nat" where
  "shape A = (nrows A, ncols A)"

definition cell :: "'a ndarray \<Rightarrow> nat \<Rightarrow> nat \<Rightarrow> 'a" where
  "cell A r c = cells A ! r ! c"

text \<open>Column \<open>j\<close>, the slice \<open>A[:, j]\<close> for \<open>j\<close> in range.\<close>

definition column :: "'a ndarray \<Rightarrow> nat \<Rightarrow> 'a list" where
  "column A j = map (\<lambda>row. row ! j) (cells A)"

text \<open>\<open>np.full(shape, v)\<close>.\<close>

definition np_full :: "nat \<times> nat \<Rightarrow> 'a \<Rightarrow> 'a ndarray" where
  "np_full shp v =
     \<lparr>nrows = fst shp, ncols = snd shp, cells = replicate (fst shp) (replicate (snd shp) v)\<rparr>"

text \<open>
  \<open>A[r, c]\<close> and \<open>A[r, c] = v\<close>: out of range raises. Indices are natural numbers, as
  \<open>np.ndenumerate\<close> and \<open>range\<close> produce them; Python's negative indices are outside
  the model.
\<close>

definition getitem :: "'a ndarray \<Rightarrow> nat \<Rightarrow> nat \<Rightarrow> error + 'a" where
  "getitem A r c = (if r < nrows A \<and> c < ncols A then Inr (cell A r c) else Inl IndexError)"

definition setitem :: "'a ndarray \<Rightarrow> nat \<Rightarrow> nat \<Rightarrow> 'a \<Rightarrow> error + 'a ndarray" where
  "setitem A r c v =
     (if r < nrows A \<and> c < ncols A
      then Inr (A\<lparr>cells := (cells A)[r := (cells A ! r)[c := v]]\<rparr>)
      else Inl IndexError)"

text \<open>\<open>xs[i]\<close> and \<open>xs[i] = v\<close> on a Python list.\<close>

definition list_getitem :: "'a list \<Rightarrow> nat \<Rightarrow> error + 'a" where
  "list_getitem xs i = (if i < length xs then Inr (xs ! i) else Inl IndexError)"

definition list_setitem :: "'a list \<Rightarrow> nat \<Rightarrow> 'a \<Rightarrow> error + 'a list" where
  "list_setitem xs i v = (if i < length xs then Inr (xs[i := v]) else Inl IndexError)"

text \<open>
  \<open>np.ndenumerate(A)\<close>: the pairs (index, value) in row-major order; \<open>scan_order\<close> is
  the order of the indices alone.
\<close>

definition scan_order :: "nat \<Rightarrow> nat \<Rightarrow> (nat \<times> nat) list" where
  "scan_order k l = List.product [0..<k] [0..<l]"

definition ndenumerate :: "'a ndarray \<Rightarrow> ((nat \<times> nat) \<times> 'a) list" where
  "ndenumerate A = map (\<lambda>pos. (pos, cell A (fst pos) (snd pos))) (scan_order (nrows A) (ncols A))"

text \<open>
  A \<open>for\<close> loop over indices whose body tests a condition and, when it holds, sets a flag
  and breaks. The result tells whether the flag was set; an exception raised by the test
  ends the loop.
\<close>

fun for_break :: "(nat \<Rightarrow> error + bool) \<Rightarrow> nat list \<Rightarrow> error + bool" where
  "for_break t [] = Inr False"
| "for_break t (i # is) =
     (case t i of
        Inl e \<Rightarrow> Inl e
      | Inr b \<Rightarrow> if b then Inr True else for_break t is)"

text \<open>
  The first index holding \<open>True\<close>, as the loops of \<open>_findStarInRow\<close> and
  \<open>list(...).index(True)\<close> compute it.
\<close>

fun first_true :: "bool list \<Rightarrow> nat \<Rightarrow> nat option" where
  "first_true [] i = None"
| "first_true (b # bs) i = (if b then Some i else first_true bs (Suc i))"

section \<open>The solver state\<close>

record munkres =
  n :: nat
  m :: nat
  costMat :: "real ndarray"
  marked :: "bool ndarray"
  starred :: "bool ndarray"
  primed :: "bool ndarray"
  row_covered :: "bool list"
  col_covered :: "bool list"
  independent :: "bool ndarray"
  z1_r :: "nat option"
  z1_c :: "nat option"
  rowResiduals :: "unit option"
  colResiduals :: "unit option"

text \<open>
  \<open>__init__\<close>: every field is set first; the assertion on the shape is the last
  statement and decides whether a solver is obtained.
\<close>

definition init :: "real ndarray \<Rightarrow> error + munkres" where
  "init A =
     (let s = \<lparr>n = nrows A, m = ncols A, costMat = A,
                marked = np_full (shape A) False,
                starred = np_full (shape A) False,
                primed = np_full (shape A) False,
                row_covered = map (\<lambda>i. False) [0..<nrows A],
                col_covered = map (\<lambda>i. False) [0..<ncols A],
                independent = np_full (shape A) False,
                z1_r = None, z1_c = None,
                rowResiduals = None, colResiduals = None\<rparr>
      in if int (m s) \<ge> int (n s) - 1 then Inr s else Inl AssertionError)"

text \<open>
  The shape facts that \<open>__init__\<close> establishes: the three grids the steps use have the
  shape \<open>(n, m)\<close> and the cover lists the lengths \<open>n\<close> and \<open>m\<close>.
\<close>

definition well_formed :: "munkres \<Rightarrow> bool" where
  "well_formed s \<longleftrightarrow>
     valid_array (costMat s) \<and> valid_array (starred s) \<and> valid_array (primed s) \<and>
     nrows (costMat s) = n s \<and> ncols (costMat s) = m s \<and>
     nrows (starred s) = n s \<and> ncols (starred s) = m s \<and>
     nrows (primed s) = n s \<and> ncols (primed s) = m s \<and>
     length (row_covered s) = n s \<and> length (col_covered s) = m s"

section \<open>Searches\<close>

text \<open>\<open>_findUncovZero\<close>: every match overwrites the result, so the last match is returned.\<close>

fun findUncovZero_loop ::
  "munkres \<Rightarrow> ((nat \<times> nat) \<times> real) list \<Rightarrow> (nat \<times> nat) option \<Rightarrow> error + (nat \<times> nat) option"
where
  "findUncovZero_loop s [] uncov_zero = Inr uncov_zero"
| "findUncovZero_loop s ((z1, v) # rest) uncov_zero =
     (if v = 0 then
        (case list_getitem (col_covered s) (snd z1) of
           Inl e \<Rightarrow> Inl e
         | Inr cc \<Rightarrow>
             if \<not> cc then
               (case list_getitem (row_covered s) (fst z1) of
                  Inl e \<Rightarrow> Inl e
                | Inr rc \<Rightarrow>
                    if \<not> rc then findUncovZero_loop s rest (Some z1)
                    else findUncovZero_loop s rest uncov_zero)
             else findUncovZero_loop s rest uncov_zero)
      else findUncovZero_loop s rest uncov_zero)"

definition findUncovZero :: "munkres \<Rightarrow> error + (nat \<times> nat) option" where
  "findUncovZero s = findUncovZero_loop s (ndenumerate (costMat s)) None"

text \<open>\<open>_findStarInRow\<close>: the row slice raises on a row out of range; \<open>-1\<close> when no star.\<close>

definition findStarInRow :: "munkres \<Rightarrow> nat \<Rightarrow> error + int" where
  "findStarInRow s row =
     (if row < nrows (starred s)
      then Inr (case first_true (cells (starred s) ! row) 0 of None \<Rightarrow> - 1 | Some i \<Rightarrow> int i)
      else Inl IndexError)"

text \<open>\<open>_findStarInCol\<close> and \<open>_findPrimeInRow\<close>, the same search down a column of the
  stars and along a row of the primes.\<close>

definition findStarInCol :: "munkres \<Rightarrow> nat \<Rightarrow> error + int" where
  "findStarInCol s col =
     (if col < ncols (starred s)
      then Inr (case first_true (column (starred s) col) 0 of None \<Rightarrow> - 1 | Some i \<Rightarrow> int i)
      else Inl IndexError)"

definition findPrimeInRow :: "munkres \<Rightarrow> nat \<Rightarrow> error + int" where
  "findPrimeInRow s row =
     (if row < nrows (primed s)
      then Inr (case first_true (cells (primed s) ! row) 0 of None \<Rightarrow> - 1 | Some i \<Rightarrow> int i)
      else Inl IndexError)"

text \<open>\<open>_isIndependent\<close>: the last row is exempt; elsewhere both loops look at the costs.\<close>

definition isIndependent :: "munkres \<Rightarrow> nat \<times> nat \<Rightarrow> error + bool" where
  "isIndependent s pos =
     (let row = fst pos; col = snd pos in
      if int row = int (n s) - 1 then Inr True
      else
        (case for_break (\<lambda>j. if col \<noteq> j
                               then (case getitem (costMat s) row j of
                                       Inl e \<Rightarrow> Inl e | Inr v \<Rightarrow> Inr (v = 0))
                               else Inr False) [0..<m s] of
           Inl e \<Rightarrow> Inl e
         | Inr hit_row \<Rightarrow>
             (case for_break (\<lambda>i. if row \<noteq> i
                                    then (case getitem (costMat s) i col of
                                            Inl e \<Rightarrow> Inl e | Inr v \<Rightarrow> Inr (v = 0))
                                    else Inr False) [0..<n s] of
                Inl e \<Rightarrow> Inl e
              | Inr hit_col \<Rightarrow> Inr (\<not> hit_row \<and> \<not> hit_col))))"

section \<open>Labels\<close>

text \<open>\<open>star\<close>: both loops look at the stars, in every row alike.\<close>

definition star :: "munkres \<Rightarrow> nat \<times> nat \<Rightarrow> error + munkres" where
  "star s pos =
     (let row = fst pos; col = snd pos in
      case for_break (\<lambda>j. if col \<noteq> j then getitem (starred s) row j else Inr False) [0..<m s] of
        Inl e \<Rightarrow> Inl e
      | Inr hit_row \<Rightarrow>
          (case for_break (\<lambda>i. if row \<noteq> i then getitem (starred s) i col else Inr False)
                  [0..<n s] of
             Inl e \<Rightarrow> Inl e
           | Inr hit_col \<Rightarrow>
               (let canStar = (\<not> hit_row \<and> \<not> hit_col) in
                if canStar then
                  (case setitem (starred s) row col True of
                     Inl e \<Rightarrow> Inl e
                   | Inr A \<Rightarrow> Inr (s\<lparr>starred := A\<rparr>))
                else Inr s)))"

definition mark :: "munkres \<Rightarrow> nat \<times> nat \<Rightarrow> error + munkres" where
  "mark s pos =
     (case setitem (marked s) (fst pos) (snd pos) True of
        Inl e \<Rightarrow> Inl e
      | Inr A \<Rightarrow> Inr (s\<lparr>marked := A\<rparr>))"

definition prime :: "munkres \<Rightarrow> nat \<times> nat \<Rightarrow> error + munkres" where
  "prime s pos =
     (case setitem (primed s) (fst pos) (snd pos) True of
        Inl e \<Rightarrow> Inl e
      | Inr A \<Rightarrow> Inr (s\<lparr>primed := A\<rparr>))"

definition reset :: "munkres \<Rightarrow> munkres" where
  "reset s =
     s\<lparr>row_covered := map (\<lambda>i. False) [0..<n s],
       col_covered := map (\<lambda>i. False) [0..<m s],
       primed := np_full (shape (costMat s)) False\<rparr>"

text \<open>\<open>step5\<close> calls \<open>reset\<close> and falls off its end: it returns \<open>None\<close>.\<close>

definition step5 :: "munkres \<Rightarrow> munkres \<times> int option" where
  "step5 s = (reset s, None)"

section \<open>The steps\<close>

text \<open>
  Step 1. \<open>np.min(A, axis=0)\<close> raises on an array without rows (a reduction over an
  empty axis); otherwise it is the list of the column minima.
\<close>

definition np_min_axis0 :: "real ndarray \<Rightarrow> error + real list" where
  "np_min_axis0 A =
     (if nrows A = 0 then Inl ValueError
      else Inr (map (\<lambda>j. min_list (column A j)) [0..<ncols A]))"

text \<open>\<open>v.reshape((1, -1))\<close> of a one-dimensional array.\<close>

definition reshape_row :: "'a list \<Rightarrow> 'a ndarray" where
  "reshape_row xs = \<lparr>nrows = 1, ncols = length xs, cells = [xs]\<rparr>"

text \<open>\<open>np.repeat(A, k, axis=0)\<close>: every row \<open>k\<close> times.\<close>

definition np_repeat_axis0 :: "'a ndarray \<Rightarrow> nat \<Rightarrow> 'a ndarray" where
  "np_repeat_axis0 A k =
     \<lparr>nrows = nrows A * k, ncols = ncols A, cells = concat (map (replicate k) (cells A))\<rparr>"

text \<open>
  \<open>A - B\<close> with numpy's broadcasting: along each axis the two lengths are equal or one
  of them is 1, and an operand of length 1 is read at index 0; other shapes raise. The
  elements are subtracted by the subtraction \<open>sub\<close> of the element type: float64
  subtraction rounds the difference and int64 subtraction wraps, so \<open>sub\<close> is a
  parameter and not the subtraction of the reals.
\<close>

definition broadcast_dim :: "nat \<Rightarrow> nat \<Rightarrow> nat option" where
  "broadcast_dim k l =
     (if k = l then Some k else if k = 1 then Some l else if l = 1 then Some k else None)"

definition bcell :: "'a ndarray \<Rightarrow> nat \<Rightarrow> nat \<Rightarrow> 'a" where
  "bcell A i j = cell A (if nrows A = 1 then 0 else i) (if ncols A = 1 then 0 else j)"

definition np_subtract ::
  "(real \<Rightarrow> real \<Rightarrow> real) \<Rightarrow> real ndarray \<Rightarrow> real ndarray \<Rightarrow> error + real ndarray"
where
  "np_subtract sub A B =
     (case broadcast_dim (nrows A) (nrows B) of
        None \<Rightarrow> Inl ValueError
      | Some k \<Rightarrow>
          (case broadcast_dim (ncols A) (ncols B) of
             None \<Rightarrow> Inl ValueError
           | Some l \<Rightarrow>
               Inr \<lparr>nrows = k, ncols = l,
                    cells = map (\<lambda>i. map (\<lambda>j. sub (bcell A i j) (bcell B i j)) [0..<l])
                              [0..<k]\<rparr>))"

text \<open>
  \<open>step1\<close>, for the subtraction \<open>sub\<close> of the element type of the cost matrix. The
  minima are found by comparisons, which are exact.
\<close>

definition step1 :: "(real \<Rightarrow> real \<Rightarrow> real) \<Rightarrow> munkres \<Rightarrow> error + munkres \<times> int" where
  "step1 sub s =
     (case np_min_axis0 (costMat s) of
        Inl e \<Rightarrow> Inl e
      | Inr mins \<Rightarrow>
          (let minValues = reshape_row mins;
               minValues = np_repeat_axis0 minValues (n s)
           in case np_subtract sub (costMat s) minValues of
                Inl e \<Rightarrow> Inl e
              | Inr A \<Rightarrow> Inr (s\<lparr>costMat := A\<rparr>, 2)))"

text \<open>Step 2: \<open>star\<close> is called on every zero, in the order of \<open>np.ndenumerate\<close>.\<close>

fun step2_loop :: "((nat \<times> nat) \<times> real) list \<Rightarrow> munkres \<Rightarrow> error + munkres" where
  "step2_loop [] s = Inr s"
| "step2_loop ((pos, v) # rest) s =
     (if v = 0 then
        (case star s pos of
           Inl e \<Rightarrow> Inl e
         | Inr s' \<Rightarrow> step2_loop rest s')
      else step2_loop rest s)"

definition step2 :: "munkres \<Rightarrow> error + munkres \<times> int" where
  "step2 s =
     (case step2_loop (ndenumerate (costMat s)) s of
        Inl e \<Rightarrow> Inl e
      | Inr s' \<Rightarrow> Inr (s', 3))"

text \<open>
  Step 3. The loop header is \<open>for _, col, starred in np.ndenumerate(self.starred)\<close>.
  \<open>np.ndenumerate\<close> yields 2-tuples \<open>((r, c), value)\<close>; the header unpacks each into three
  names. The objects involved are modelled as Python values so that the unpacking is a
  step of the model.
\<close>

datatype pyobj = PyInt nat | PyBool bool | PyTuple "pyobj list"

definition nd_item :: "(nat \<times> nat) \<times> bool \<Rightarrow> pyobj" where
  "nd_item it = PyTuple [PyTuple [PyInt (fst (fst it)), PyInt (snd (fst it))], PyBool (snd it)]"

text \<open>\<open>a, b, c = x\<close>: a tuple of another length raises \<open>ValueError\<close>.\<close>

fun unpack3 :: "pyobj \<Rightarrow> error + (pyobj \<times> pyobj \<times> pyobj)" where
  "unpack3 (PyTuple [a, b, c]) = Inr (a, b, c)"
| "unpack3 (PyTuple xs) = Inl ValueError"
| "unpack3 x = Inl TypeError"

fun truthy :: "pyobj \<Rightarrow> bool" where
  "truthy (PyInt i) = (i \<noteq> 0)"
| "truthy (PyBool b) = b"
| "truthy (PyTuple xs) = (xs \<noteq> [])"

fun as_index :: "pyobj \<Rightarrow> error + nat" where
  "as_index (PyInt i) = Inr i"
| "as_index (PyBool b) = Inr (if b then 1 else 0)"
| "as_index (PyTuple xs) = Inl TypeError"

definition step3_body :: "munkres \<Rightarrow> pyobj \<Rightarrow> pyobj \<Rightarrow> error + munkres" where
  "step3_body s col starred_v =
     (if truthy starred_v then
        (case as_index col of
           Inl e \<Rightarrow> Inl e
         | Inr c \<Rightarrow>
             (case list_getitem (col_covered s) c of
                Inl e \<Rightarrow> Inl e
              | Inr covered \<Rightarrow>
                  if \<not> covered then
                    (case list_setitem (col_covered s) c True of
                       Inl e \<Rightarrow> Inl e
                     | Inr cs \<Rightarrow> Inr (s\<lparr>col_covered := cs\<rparr>))
                  else Inl ValueError))
      else Inr s)"

fun step3_loop :: "pyobj list \<Rightarrow> munkres \<Rightarrow> error + munkres" where
  "step3_loop [] s = Inr s"
| "step3_loop (item # rest) s =
     (case unpack3 item of
        Inl e \<Rightarrow> Inl e
      | Inr (u, col, starred_v) \<Rightarrow>
          (case step3_body s col starred_v of
             Inl e \<Rightarrow> Inl e
           | Inr s' \<Rightarrow> step3_loop rest s'))"

definition step3 :: "munkres \<Rightarrow> error + munkres \<times> int" where
  "step3 s =
     (case step3_loop (map nd_item (ndenumerate (starred s))) s of
        Inl e \<Rightarrow> Inl e
      | Inr s' \<Rightarrow> Inr (s', 4))"

text \<open>
  Step 4. The loop leaves the next step in the local variable \<open>step\<close>, which
  \<open>step4_loop\<close> returns with the state. The method itself has no \<open>return\<close> statement:
  \<open>step4\<close> drops the local and returns \<open>None\<close>.
\<close>

function step4_loop :: "munkres \<Rightarrow> error + munkres \<times> int" where
  "step4_loop s =
     (case findUncovZero s of
        Inl e \<Rightarrow> Inl e
      | Inr None \<Rightarrow> Inr (s, 6)
      | Inr (Some z1) \<Rightarrow>
          (case setitem (primed s) (fst z1) (snd z1) True of
             Inl e \<Rightarrow> Inl e
           | Inr P \<Rightarrow>
               (case findStarInRow (s\<lparr>primed := P\<rparr>) (fst z1) of
                  Inl e \<Rightarrow> Inl e
                | Inr starCol \<Rightarrow>
                    if starCol = - 1 then
                      Inr (s\<lparr>primed := P, z1_r := Some (fst z1), z1_c := Some (snd z1)\<rparr>, 5)
                    else
                      (case first_true (cells (starred s) ! fst z1) 0 of
                         None \<Rightarrow> Inl ValueError
                       | Some col \<Rightarrow>
                           (case list_getitem (col_covered s) col of
                              Inl e \<Rightarrow> Inl e
                            | Inr cc \<Rightarrow>
                                if \<not> cc then Inl AssertionError
                                else
                                  (case list_getitem (row_covered s) (fst z1) of
                                     Inl e \<Rightarrow> Inl e
                                   | Inr rc \<Rightarrow>
                                       if rc then Inl AssertionError
                                       else
                                         (case list_setitem (col_covered s) col False of
                                            Inl e \<Rightarrow> Inl e
                                          | Inr cs \<Rightarrow>
                                              step4_loop
                                                (s\<lparr>primed := P,
                                                   row_covered := (row_covered s)[fst z1 := True],
                                                   col_covered := cs\<rparr>))))))))"
  by pat_completeness auto

definition step4 :: "munkres \<Rightarrow> error + munkres \<times> int option" where
  "step4 s =
     (case step4_loop s of
        Inl e \<Rightarrow> Inl e
      | Inr (s', step) \<Rightarrow> Inr (s', None))"

text \<open>
  \<open>compute\<close>: the body is \<open>pass\<close>. It returns \<open>None\<close> and leaves the solver as it was.
\<close>

definition compute :: "munkres \<Rightarrow> munkres \<times> bool ndarray option" where
  "compute s = (s, None)"

section \<open>Notions used to state the properties\<close>

text \<open>
  The minimum of column \<open>j\<close>, as a minimum of a set, and the matrix obtained by
  subtracting from every entry, with \<open>sub\<close>, the minimum of its column.
\<close>

definition col_min :: "real ndarray \<Rightarrow> nat \<Rightarrow> real" where
  "col_min A j = Min ((\<lambda>k. cell A k j) ` {..<nrows A})"

definition reduced :: "(real \<Rightarrow> real \<Rightarrow> real) \<Rightarrow> real ndarray \<Rightarrow> real ndarray" where
  "reduced sub A = \<lparr>nrows = nrows A, ncols = ncols A,
      cells = map (\<lambda>i. map (\<lambda>j. sub (cell A i j) (col_min A j)) [0..<ncols A])
                [0..<nrows A]\<rparr>"

definition nonneg_entries :: "real ndarray \<Rightarrow> bool" where
  "nonneg_entries A \<longleftrightarrow> (\<forall>i<nrows A. \<forall>j<ncols A. 0 \<le> cell A i j)"

text \<open>
  Laws of the subtraction of an element type. A value minus itself is zero; the
  difference of a value and a smaller one is not negative (\<open>sign_correct_nonneg\<close>: when
  the smaller one is not negative); a value minus zero is the value. The subtraction of
  float64 (rounding to nearest, on finite values) has all four, since rounding is monotone
  and keeps the values of the type; the subtraction of int64 has all but \<open>sign_correct\<close>,
  since it does not wrap when the smaller operand is not negative; the subtraction of the
  reals has all four.
\<close>

definition cancels :: "(real \<Rightarrow> real \<Rightarrow> real) \<Rightarrow> bool" where
  "cancels sub \<longleftrightarrow> (\<forall>a. sub a a = 0)"

definition sign_correct_nonneg :: "(real \<Rightarrow> real \<Rightarrow> real) \<Rightarrow> bool" where
  "sign_correct_nonneg sub \<longleftrightarrow> (\<forall>a b. 0 \<le> b \<longrightarrow> b \<le> a \<longrightarrow> 0 \<le> sub a b)"

definition sign_correct :: "(real \<Rightarrow> real \<Rightarrow> real) \<Rightarrow> bool" where
  "sign_correct sub \<longleftrightarrow> (\<forall>a b. b \<le> a \<longrightarrow> 0 \<le> sub a b)"

definition zero_exact :: "(real \<Rightarrow> real \<Rightarrow> real) \<Rightarrow> bool" where
  "zero_exact sub \<longleftrightarrow> (\<forall>a. sub a 0 = a)"

text \<open>
  The order in which \<open>np.ndenumerate\<close> visits two cells, and a zero of the cost matrix
  whose row and column are both uncovered.
\<close>

definition scan_before :: "nat \<times> nat \<Rightarrow> nat \<times> nat \<Rightarrow> bool" where
  "scan_before p q \<longleftrightarrow> fst p < fst q \<or> (fst p = fst q \<and> snd p < snd q)"

definition uncov_zero :: "munkres \<Rightarrow> nat \<times> nat \<Rightarrow> bool" where
  "uncov_zero s pos \<longleftrightarrow>
     fst pos < n s \<and> snd pos < m s \<and> cell (costMat s) (fst pos) (snd pos) = 0 \<and>
     \<not> col_covered s ! snd pos \<and> \<not> row_covered s ! fst pos"

text \<open>
  A star grid is exclusive when no two starred cells share a row or a column, whatever the
  row. \<open>other_star\<close> is the test of \<open>star\<close>: a star elsewhere in the row or the column.
\<close>

definition other_star :: "bool ndarray \<Rightarrow> nat \<Rightarrow> nat \<Rightarrow> bool" where
  "other_star S r c \<longleftrightarrow>
     (\<exists>j<ncols S. j \<noteq> c \<and> cell S r j) \<or> (\<exists>i<nrows S. i \<noteq> r \<and> cell S i c)"

definition exclusive :: "bool ndarray \<Rightarrow> bool" where
  "exclusive S \<longleftrightarrow>
     (\<forall>r<nrows S. \<forall>c<ncols S. \<forall>r'<nrows S. \<forall>c'<ncols S.
        cell S r c \<and> cell S r' c' \<and> (r = r' \<or> c = c') \<longrightarrow> r = r' \<and> c = c')"

text \<open>The test of \<open>_isIndependent\<close>: a zero elsewhere in the row or the column.\<close>

definition other_zero :: "real ndarray \<Rightarrow> nat \<Rightarrow> nat \<Rightarrow> bool" where
  "other_zero A r c \<longleftrightarrow>
     (\<exists>j<ncols A. j \<noteq> c \<and> cell A r j = 0) \<or> (\<exists>i<nrows A. i \<noteq> r \<and> cell A i c = 0)"

section \<open>Example inputs\<close>

text \<open>A solver state in the middle of a phase: covers, a prime, a star and Z1 are set.\<close>

abbreviation ex_covered :: munkres where
  "ex_covered \<equiv>
     \<lparr>n = 2, m = 1, costMat = \<lparr>nrows = 2, ncols = 1, cells = [[0], [0]]\<rparr>,
      marked = \<lparr>nrows = 2, ncols = 1, cells = [[False], [False]]\<rparr>,
      starred = \<lparr>nrows = 2, ncols = 1, cells = [[True], [False]]\<rparr>,
      primed = \<lparr>nrows = 2, ncols = 1, cells = [[False], [True]]\<rparr>,
      row_covered = [True, False], col_covered = [True],
      independent = \<lparr>nrows = 2, ncols = 1, cells = [[False], [False]]\<rparr>,
      z1_r = Some 1, z1_c = Some 0, rowResiduals = None, colResiduals = None\<rparr>"

text \<open>
  The example of the specification: two real rows, the virtual row last, three columns;
  the solver \<open>__init__\<close> builds for it, and that solver after \<open>step2\<close>.
\<close>

abbreviation ex_cost :: "real ndarray" where
  "ex_cost \<equiv> \<lparr>nrows = 3, ncols = 3, cells = [[1, 2, 3], [2, 1, 3], [0, 0, 0]]\<rparr>"

abbreviation no_labels :: "bool ndarray" where
  "no_labels \<equiv> \<lparr>nrows = 3, ncols = 3,
     cells = [[False, False, False], [False, False, False], [False, False, False]]\<rparr>"

abbreviation ex_solver :: munkres where
  "ex_solver \<equiv>
     \<lparr>n = 3, m = 3, costMat = ex_cost, marked = no_labels, starred = no_labels,
      primed = no_labels, row_covered = [False, False, False],
      col_covered = [False, False, False], independent = no_labels,
      z1_r = None, z1_c = None, rowResiduals = None, colResiduals = None\<rparr>"

abbreviation ex_starred :: munkres where
  "ex_starred \<equiv>
     ex_solver\<lparr>starred := \<lparr>nrows = 3, ncols = 3,
       cells = [[False, False, False], [False, False, False], [True, False, False]]\<rparr>\<rparr>"

text \<open>A solver whose cost matrix has no zero, as \<open>__init__\<close> builds it.\<close>

abbreviation ex_nozero :: munkres where
  "ex_nozero \<equiv>
     \<lparr>n = 1, m = 1, costMat = \<lparr>nrows = 1, ncols = 1, cells = [[1]]\<rparr>,
      marked = \<lparr>nrows = 1, ncols = 1, cells = [[False]]\<rparr>,
      starred = \<lparr>nrows = 1, ncols = 1, cells = [[False]]\<rparr>,
      primed = \<lparr>nrows = 1, ncols = 1, cells = [[False]]\<rparr>,
      row_covered = [False], col_covered = [False],
      independent = \<lparr>nrows = 1, ncols = 1, cells = [[False]]\<rparr>,
      z1_r = None, z1_c = None, rowResiduals = None, colResiduals = None\<rparr>"

text \<open>
  A subtraction that rounds as float64 does at the one difference met below that float64
  cannot represent (\<open>2^53 + 2 - 1\<close>, rounded to \<open>2^53\<close>) and is exact elsewhere, and the
  solver \<open>__init__\<close> builds for the column \<open>(2^53 + 2, 1)\<close>.
\<close>

abbreviation fl_sub :: "real \<Rightarrow> real \<Rightarrow> real" where
  "fl_sub \<equiv> \<lambda>a b. if a = 9007199254740994 \<and> b = 1 then 9007199254740992 else a - b"

abbreviation ex_big :: munkres where
  "ex_big \<equiv>
     \<lparr>n = 2, m = 1, costMat = \<lparr>nrows = 2, ncols = 1, cells = [[9007199254740994], [1]]\<rparr>,
      marked = \<lparr>nrows = 2, ncols = 1, cells = [[False], [False]]\<rparr>,
      starred = \<lparr>nrows = 2, ncols = 1, cells = [[False], [False]]\<rparr>,
      primed = \<lparr>nrows = 2, ncols = 1, cells = [[False], [False]]\<rparr>,
      row_covered = [False, False], col_covered = [False],
      independent = \<lparr>nrows = 2, ncols = 1, cells = [[False], [False]]\<rparr>,
      z1_r = None, z1_c = None, rowResiduals = None, colResiduals = None\<rparr>"

text \<open>A solver whose cost matrix is not column-reduced.\<close>

abbreviation ex_unreduced :: munkres where
  "ex_unreduced \<equiv> ex_solver\<lparr>costMat := \<lparr>nrows = 3, ncols = 3, cells = [[4, 2, 3], [2, 5, 3], [3, 3, 1]]\<rparr>\<rparr>"

text \<open>A solver with zeros under covers and three uncovered zeros.\<close>

abbreviation ex_half_covered :: munkres where
  "ex_half_covered \<equiv>
     ex_solver\<lparr>costMat := \<lparr>nrows = 3, ncols = 3, cells = [[0, 2, 0], [0, 0, 3], [0, 0, 0]]\<rparr>,
               row_covered := [False, False, True], col_covered := [False, True, False]\<rparr>"

text \<open>
  The solver \<open>__init__\<close> builds for a matrix whose real row has two zeros (the virtual
  row is row 1).
\<close>

abbreviation ex_pair :: munkres where
  "ex_pair \<equiv>
     \<lparr>n = 2, m = 2, costMat = \<lparr>nrows = 2, ncols = 2, cells = [[0, 0], [1, 1]]\<rparr>,
      marked = \<lparr>nrows = 2, ncols = 2, cells = [[False, False], [False, False]]\<rparr>,
      starred = \<lparr>nrows = 2, ncols = 2, cells = [[False, False], [False, False]]\<rparr>,
      primed = \<lparr>nrows = 2, ncols = 2, cells = [[False, False], [False, False]]\<rparr>,
      row_covered = [False, False], col_covered = [False, False],
      independent = \<lparr>nrows = 2, ncols = 2, cells = [[False, False], [False, False]]\<rparr>,
      z1_r = None, z1_c = None, rowResiduals = None, colResiduals = None\<rparr>"

section \<open>Termination of the loop of step 4\<close>

lemma uncovered_rows_decrease:
  "i < length xs \<Longrightarrow> \<not> xs ! i \<Longrightarrow>
     length (filter Not (xs[i := True])) < length (filter Not xs)"
proof (induction xs arbitrary: i)
  case Nil
  then show ?case by simp
next
  case (Cons x xs)
  show ?case
  proof (cases i)
    case 0
    with Cons.prems show ?thesis by simp
  next
    case (Suc k)
    with Cons.prems have "length (filter Not (xs[k := True])) < length (filter Not xs)"
      by (intro Cons.IH) simp_all
    with Suc show ?thesis by simp
  qed
qed

termination step4_loop
proof (relation "measure (\<lambda>s. length (filter Not (row_covered s)))")
  show "wf (measure (\<lambda>s. length (filter Not (row_covered s))))"
    by simp
next
  fix s :: munkres and z1 :: "nat \<times> nat" and rc :: bool
  assume get: "list_getitem (row_covered s) (fst z1) = Inr rc" and free: "\<not> rc"
  from get have "fst z1 < length (row_covered s)" "rc = row_covered s ! fst z1"
    by (auto simp: list_getitem_def split: if_splits)
  with free have "length (filter Not ((row_covered s)[fst z1 := True]))
      < length (filter Not (row_covered s))"
    by (intro uncovered_rows_decrease) simp_all
  then show "(s\<lparr>primed := P, row_covered := (row_covered s)[fst z1 := True], col_covered := cs\<rparr>, s)
      \<in> measure (\<lambda>s. length (filter Not (row_covered s)))" for P cs
    by simp
qed

declare step4_loop.simps [simp del]

section \<open>Construction\<close>

lemma init_cases:
  "init A = Inl AssertionError \<or> (\<exists>s. init A = Inr s)"
  by (simp add: init_def Let_def)

text \<open>
  C9. Constructing the solver raises (the assertion of \<open>__init__\<close>) exactly when
  \<open>m < n - 1\<close>, so no solver object exists on which a step could run; when
  \<open>m \<ge> n - 1\<close> construction returns a solver whose dimensions and cost matrix are
  those of the input.
\<close>

theorem init_precondition:
  "(int (ncols A) < int (nrows A) - 1 \<longrightarrow> init A = Inl AssertionError) \<and>
   (int (ncols A) \<ge> int (nrows A) - 1 \<longrightarrow>
      (\<exists>s. init A = Inr s \<and> n s = nrows A \<and> m s = ncols A \<and> costMat s = A))"
  by (simp add: init_def Let_def)

theorem init_precondition_witness:
  "int (ncols \<lparr>nrows = 3, ncols = 1, cells = [[1], [2], [0::real]]\<rparr>)
     < int (nrows \<lparr>nrows = 3, ncols = 1, cells = [[1], [2], [0::real]]\<rparr>) - 1 \<and>
   init \<lparr>nrows = 3, ncols = 1, cells = [[1], [2], [0]]\<rparr> = Inl AssertionError \<and>
   int (ncols \<lparr>nrows = 2, ncols = 1, cells = [[1], [0::real]]\<rparr>)
     \<ge> int (nrows \<lparr>nrows = 2, ncols = 1, cells = [[1], [0::real]]\<rparr>) - 1 \<and>
   (\<exists>s. init \<lparr>nrows = 2, ncols = 1, cells = [[1], [0]]\<rparr> = Inr s \<and> n s = 2 \<and> m s = 1)"
  using init_precondition [of "\<lparr>nrows = 3, ncols = 1, cells = [[1], [2], [0]]\<rparr>"]
        init_precondition [of "\<lparr>nrows = 2, ncols = 1, cells = [[1], [0]]\<rparr>"]
  by auto

section \<open>Arrays\<close>

lemma valid_row_length:
  "valid_array A \<Longrightarrow> r < nrows A \<Longrightarrow> length (cells A ! r) = ncols A"
  by (simp add: valid_array_def list_all_length)

lemma valid_rows_in_set:
  "valid_array A \<Longrightarrow> row \<in> set (cells A) \<Longrightarrow> length row = ncols A"
  by (simp add: valid_array_def list_all_iff)

lemma setitem_in_range:
  assumes "valid_array A" "r < nrows A" "c < ncols A"
  shows "\<exists>A'. setitem A r c v = Inr A' \<and> valid_array A' \<and>
           nrows A' = nrows A \<and> ncols A' = ncols A \<and>
           (\<forall>r'<nrows A. \<forall>c'<ncols A.
              cell A' r' c' = (if r' = r \<and> c' = c then v else cell A r' c'))"
proof -
  let ?A' = "A\<lparr>cells := (cells A)[r := (cells A ! r)[c := v]]\<rparr>"
  from assms have len: "length (cells A) = nrows A"
    and rows: "\<And>k. k < nrows A \<Longrightarrow> length (cells A ! k) = ncols A"
    by (simp_all add: valid_array_def list_all_length)
  have "setitem A r c v = Inr ?A'" using assms by (simp add: setitem_def)
  moreover have "valid_array ?A'"
    using len rows assms(2) by (auto simp: valid_array_def list_all_length nth_list_update)
  moreover have "\<forall>r'<nrows A. \<forall>c'<ncols A.
      cell ?A' r' c' = (if r' = r \<and> c' = c then v else cell A r' c')"
    using len rows assms(2) by (auto simp: cell_def nth_list_update)
  ultimately show ?thesis by (intro exI [of _ ?A']) simp
qed

lemma valid_np_full: "valid_array (np_full shp v)"
  by (simp add: valid_array_def np_full_def list_all_length)

lemma cell_np_full: "r < k \<Longrightarrow> c < l \<Longrightarrow> cell (np_full (k, l) v) r c = v"
  by (simp add: cell_def np_full_def)

lemma shape_np_full: "nrows (np_full (k, l) v) = k" "ncols (np_full (k, l) v) = l"
  by (simp_all add: np_full_def)

lemma for_break_total:
  "\<forall>i\<in>set js. t i = Inr (P i) \<Longrightarrow> for_break t js = Inr (\<exists>i\<in>set js. P i)"
  by (induction js) auto

section \<open>Step 1\<close>

lemma column_set:
  "valid_array A \<Longrightarrow> set (column A j) = (\<lambda>k. cell A k j) ` {..<nrows A}"
  by (force simp: column_def cell_def valid_array_def set_conv_nth)

lemma min_list_column:
  "valid_array A \<Longrightarrow> 0 < nrows A \<Longrightarrow> min_list (column A j) = col_min A j"
proof -
  assume v: "valid_array A" and pos: "0 < nrows A"
  then have "column A j \<noteq> []" by (auto simp: column_def valid_array_def)
  then have "min_list (column A j) = Min (set (column A j))" by (rule min_list_Min)
  with v show ?thesis by (simp add: column_set col_min_def)
qed

lemma col_min_le: "k < nrows A \<Longrightarrow> col_min A j \<le> cell A k j"
  by (simp add: col_min_def)

lemma col_min_attained: "0 < nrows A \<Longrightarrow> \<exists>k<nrows A. cell A k j = col_min A j"
proof -
  assume "0 < nrows A"
  then have "(\<lambda>k. cell A k j) ` {..<nrows A} \<noteq> {}" by auto
  then have "col_min A j \<in> (\<lambda>k. cell A k j) ` {..<nrows A}"
    unfolding col_min_def by (intro Min_in) simp_all
  then show ?thesis by auto
qed

lemma bcell_in_range: "i < nrows A \<Longrightarrow> j < ncols A \<Longrightarrow> bcell A i j = cell A i j"
  by (auto simp: bcell_def)

lemma valid_reduced: "valid_array (reduced sub A)"
  by (simp add: valid_array_def reduced_def list_all_length)

lemma shape_reduced: "nrows (reduced sub A) = nrows A" "ncols (reduced sub A) = ncols A"
  by (simp_all add: reduced_def)

lemma cell_reduced:
  "i < nrows A \<Longrightarrow> j < ncols A \<Longrightarrow>
   cell (reduced sub A) i j = sub (cell A i j) (col_min A j)"
  by (simp add: reduced_def cell_def)

lemma cells_by_index:
  assumes "valid_array A"
  shows "map (\<lambda>i. map (\<lambda>j. cell A i j) [0..<ncols A]) [0..<nrows A] = cells A"
proof (rule nth_equalityI)
  from assms have len: "length (cells A) = nrows A"
    and rows: "\<And>k. k < nrows A \<Longrightarrow> length (cells A ! k) = ncols A"
    by (simp_all add: valid_array_def list_all_length)
  show "length (map (\<lambda>i. map (\<lambda>j. cell A i j) [0..<ncols A]) [0..<nrows A]) = length (cells A)"
    using len by simp
  fix i assume "i < length (map (\<lambda>i. map (\<lambda>j. cell A i j) [0..<ncols A]) [0..<nrows A])"
  then have i: "i < nrows A" by simp
  have "map (\<lambda>j. cell A i j) [0..<ncols A] = cells A ! i"
    using rows [OF i] by (intro nth_equalityI) (simp_all add: cell_def)
  with i show "map (\<lambda>i. map (\<lambda>j. cell A i j) [0..<ncols A]) [0..<nrows A] ! i = cells A ! i"
    by simp
qed

lemma step1_reduced:
  assumes "well_formed s" "0 < n s"
  shows "step1 sub s = Inr (s\<lparr>costMat := reduced sub (costMat s)\<rparr>, 2)"
proof -
  let ?A = "costMat s"
  let ?R = "\<lparr>nrows = n s, ncols = m s, cells = replicate (n s) (map (col_min ?A) [0..<m s])\<rparr>"
  from assms have v: "valid_array ?A" and nr: "nrows ?A = n s" and nc: "ncols ?A = m s"
    by (simp_all add: well_formed_def)
  have mins: "np_min_axis0 ?A = Inr (map (col_min ?A) [0..<m s])"
    using v assms(2) nr nc by (simp add: np_min_axis0_def min_list_column)
  have rep: "np_repeat_axis0 (reshape_row (map (col_min ?A) [0..<m s])) (n s) = ?R"
    by (simp add: np_repeat_axis0_def reshape_row_def)
  have entry: "sub (bcell ?A i j) (bcell ?R i j) = sub (cell ?A i j) (col_min ?A j)"
    if "i < n s" "j < m s" for i j
  proof -
    from that nr nc have "bcell ?A i j = cell ?A i j" by (simp add: bcell_in_range)
    moreover from that have "bcell ?R i j = cell ?R i j" by (simp add: bcell_in_range)
    moreover from that have "cell ?R i j = col_min ?A j" by (simp add: cell_def)
    ultimately show ?thesis by simp
  qed
  have "np_subtract sub ?A ?R = Inr \<lparr>nrows = n s, ncols = m s,
      cells = map (\<lambda>i. map (\<lambda>j. sub (bcell ?A i j) (bcell ?R i j)) [0..<m s]) [0..<n s]\<rparr>"
    using nr nc by (simp add: np_subtract_def broadcast_dim_def)
  also have "map (\<lambda>i. map (\<lambda>j. sub (bcell ?A i j) (bcell ?R i j)) [0..<m s]) [0..<n s] =
      map (\<lambda>i. map (\<lambda>j. sub (cell ?A i j) (col_min ?A j)) [0..<m s]) [0..<n s]"
    using entry by simp
  finally have "np_subtract sub ?A ?R = Inr (reduced sub ?A)"
    using nr nc by (simp add: reduced_def)
  with mins rep show ?thesis by (simp add: step1_def Let_def)
qed

lemma col_min_reduced:
  assumes "0 < nrows A" "j < ncols A" "cancels sub"
    and nonneg: "\<forall>k<nrows A. 0 \<le> sub (cell A k j) (col_min A j)"
  shows "col_min (reduced sub A) j = 0"
proof -
  let ?S = "(\<lambda>k. cell (reduced sub A) k j) ` {..<nrows A}"
  from col_min_attained [OF assms(1), of j] obtain k where
    k: "k < nrows A" "cell A k j = col_min A j"
    by blast
  with assms(2,3) have "cell (reduced sub A) k j = 0" by (simp add: cell_reduced cancels_def)
  with k(1) have "0 \<in> ?S" by force
  moreover have "\<And>y. y \<in> ?S \<Longrightarrow> 0 \<le> y"
    using assms(2) nonneg by (auto simp: cell_reduced)
  ultimately have "Min ?S = 0" by (intro Min_eqI) simp_all
  then show ?thesis by (simp add: col_min_def shape_reduced)
qed

lemma reduced_fixpoint:
  assumes v: "valid_array A" and z: "\<forall>j<ncols A. col_min A j = 0" and e: "zero_exact sub"
  shows "reduced sub A = A"
proof -
  have "map (\<lambda>i. map (\<lambda>j. sub (cell A i j) (col_min A j)) [0..<ncols A]) [0..<nrows A] =
      map (\<lambda>i. map (\<lambda>j. cell A i j) [0..<ncols A]) [0..<nrows A]"
    using z e by (simp add: zero_exact_def)
  also have "\<dots> = cells A" using v by (rule cells_by_index)
  finally show ?thesis by (simp add: reduced_def)
qed

lemma step1_already_reduced:
  assumes "well_formed s" "0 < n s" "zero_exact sub" "\<forall>j<m s. col_min (costMat s) j = 0"
  shows "step1 sub s = Inr (s, 2)"
proof -
  from assms(1) have "valid_array (costMat s)" "ncols (costMat s) = m s"
    by (simp_all add: well_formed_def)
  with assms(3,4) have "reduced sub (costMat s) = costMat s"
    by (intro reduced_fixpoint) simp_all
  with step1_reduced [OF assms(1,2), of sub] show ?thesis by simp
qed

lemma step1_twice:
  assumes "well_formed s" "0 < n s" "cancels sub" "sign_correct sub" "zero_exact sub"
  shows "\<exists>s1. step1 sub s = Inr (s1, 2) \<and> step1 sub s1 = Inr (s1, 2)"
proof -
  let ?A = "costMat s"
  let ?s1 = "s\<lparr>costMat := reduced sub ?A\<rparr>"
  from assms(1) have nr: "nrows ?A = n s" and nc: "ncols ?A = m s"
    by (simp_all add: well_formed_def)
  have wf1: "well_formed ?s1"
    using assms(1) by (simp add: well_formed_def valid_reduced shape_reduced)
  have pos1: "0 < n ?s1" using assms(2) by simp
  have "col_min (costMat ?s1) j = 0" if "j < m ?s1" for j
  proof -
    have "\<forall>k<nrows ?A. 0 \<le> sub (cell ?A k j) (col_min ?A j)"
      using assms(4) by (simp add: sign_correct_def col_min_le)
    with that assms(2,3) nr nc show ?thesis by (simp add: col_min_reduced)
  qed
  then have "\<forall>j<m ?s1. col_min (costMat ?s1) j = 0" by blast
  with wf1 pos1 assms(5) have "step1 sub ?s1 = Inr (?s1, 2)" by (rule step1_already_reduced)
  with step1_reduced [OF assms(1,2), of sub] show ?thesis by blast
qed

lemma real_subtraction_laws:
  "cancels (\<lambda>a b. a - b)" "sign_correct_nonneg (\<lambda>a b. a - b)"
  "sign_correct (\<lambda>a b. a - b)" "zero_exact (\<lambda>a b. a - b)"
  by (simp_all add: cancels_def sign_correct_nonneg_def sign_correct_def zero_exact_def)

lemma fl_sub_laws:
  "cancels fl_sub" "sign_correct_nonneg fl_sub" "sign_correct fl_sub" "zero_exact fl_sub"
  by (simp_all add: cancels_def sign_correct_nonneg_def sign_correct_def zero_exact_def)

text \<open>
  C6. Let the subtraction of the element type give zero for a value minus itself and a
  result that is not negative for a value minus a smaller one that is not negative (as
  float64, int64 and real subtraction do). On a solver whose cost matrix has at least one
  row (the virtual row is always there) and no negative entry, \<open>step1\<close> returns 2 and
  replaces the cost matrix by one of the same shape in which every entry is the old entry
  minus, by that subtraction, the minimum of its column; every column of the new matrix
  holds a zero and no entry is negative.
\<close>

theorem step1_column_reduction:
  assumes "well_formed s" and "0 < n s" and "nonneg_entries (costMat s)"
    and "cancels sub" and "sign_correct_nonneg sub"
  shows "\<exists>A'. step1 sub s = Inr (s\<lparr>costMat := A'\<rparr>, 2) \<and>
           valid_array A' \<and> shape A' = shape (costMat s) \<and>
           (\<forall>i<n s. \<forall>j<m s. cell A' i j = sub (cell (costMat s) i j) (col_min (costMat s) j)) \<and>
           (\<forall>j<m s. \<exists>i<n s. cell A' i j = 0) \<and>
           (\<forall>i<n s. \<forall>j<m s. 0 \<le> cell A' i j)"
proof -
  let ?A = "costMat s"
  from assms(1) have nr: "nrows ?A = n s" and nc: "ncols ?A = m s"
    by (simp_all add: well_formed_def)
  have sub: "\<forall>i<n s. \<forall>j<m s. cell (reduced sub ?A) i j = sub (cell ?A i j) (col_min ?A j)"
    using nr nc by (simp add: cell_reduced)
  have zero: "\<forall>j<m s. \<exists>i<n s. cell (reduced sub ?A) i j = 0"
  proof (intro allI impI)
    fix j assume j: "j < m s"
    from col_min_attained [of ?A j] assms(2) nr
    obtain k where k: "k < n s" "cell ?A k j = col_min ?A j" by auto
    with sub j assms(4) have "cell (reduced sub ?A) k j = 0" by (simp add: cancels_def)
    with k(1) show "\<exists>i<n s. cell (reduced sub ?A) i j = 0" by blast
  qed
  have nonneg: "\<forall>i<n s. \<forall>j<m s. 0 \<le> cell (reduced sub ?A) i j"
  proof (intro allI impI)
    fix i j assume i: "i < n s" and j: "j < m s"
    from col_min_attained [of ?A j] assms(2) nr
    obtain k where k: "k < n s" "cell ?A k j = col_min ?A j" by auto
    from assms(3) k(1) j nr nc have "0 \<le> cell ?A k j" by (simp add: nonneg_entries_def)
    with k(2) have "0 \<le> col_min ?A j" by simp
    moreover from i nr have "col_min ?A j \<le> cell ?A i j" by (simp add: col_min_le)
    ultimately have "0 \<le> sub (cell ?A i j) (col_min ?A j)"
      using assms(5) by (simp add: sign_correct_nonneg_def)
    with sub i j show "0 \<le> cell (reduced sub ?A) i j" by simp
  qed
  have "step1 sub s = Inr (s\<lparr>costMat := reduced sub ?A\<rparr>, 2)"
    using assms(1,2) by (rule step1_reduced)
  moreover have "valid_array (reduced sub ?A)" by (rule valid_reduced)
  moreover have "shape (reduced sub ?A) = shape ?A" by (simp add: shape_def shape_reduced)
  ultimately show ?thesis using sub zero nonneg by blast
qed

theorem step1_column_reduction_witness:
  "well_formed ex_unreduced \<and> 0 < n ex_unreduced \<and> nonneg_entries (costMat ex_unreduced) \<and>
   cancels (\<lambda>a b. a - b) \<and> sign_correct_nonneg (\<lambda>a b. a - b) \<and>
   (\<exists>A'. step1 (\<lambda>a b. a - b) ex_unreduced = Inr (ex_unreduced\<lparr>costMat := A'\<rparr>, 2) \<and>
      cells A' = [[2, 0, 2], [0, 3, 2], [1, 1, 0]]) \<and>
   well_formed ex_big \<and> 0 < n ex_big \<and> nonneg_entries (costMat ex_big) \<and>
   cancels fl_sub \<and> sign_correct_nonneg fl_sub \<and>
   (\<exists>A'. step1 fl_sub ex_big = Inr (ex_big\<lparr>costMat := A'\<rparr>, 2) \<and>
      cells A' = [[9007199254740992], [0]])"
proof -
  have h1: "well_formed ex_unreduced" by code_simp
  have h2: "0 < n ex_unreduced" by simp
  have h3: "nonneg_entries (costMat ex_unreduced)"
    by (auto simp: nonneg_entries_def cell_def less_Suc_eq numeral_3_eq_3)
  note h4 = real_subtraction_laws(1) and h5 = real_subtraction_laws(2)
  from step1_column_reduction [OF h1 h2 h3 h4 h5]
  obtain A' where a: "step1 (\<lambda>a b. a - b) ex_unreduced = Inr (ex_unreduced\<lparr>costMat := A'\<rparr>, 2)"
    by (elim exE conjE) (rule that, assumption+)
  have "step1 (\<lambda>a b. a - b) ex_unreduced = Inr (ex_unreduced\<lparr>costMat :=
      \<lparr>nrows = 3, ncols = 3, cells = [[2, 0, 2], [0, 3, 2], [1, 1, 0]]\<rparr>\<rparr>, 2)"
    by code_simp
  with a have "cells A' = [[2, 0, 2], [0, 3, 2], [1, 1, 0]]" by auto
  with a have r1: "\<exists>A'. step1 (\<lambda>a b. a - b) ex_unreduced = Inr (ex_unreduced\<lparr>costMat := A'\<rparr>, 2) \<and>
      cells A' = [[2, 0, 2], [0, 3, 2], [1, 1, 0]]" by blast
  have g1: "well_formed ex_big" by code_simp
  have g2: "0 < n ex_big" by simp
  have g3: "nonneg_entries (costMat ex_big)"
    by (auto simp: nonneg_entries_def cell_def less_Suc_eq numeral_2_eq_2)
  note g4 = fl_sub_laws(1) and g5 = fl_sub_laws(2)
  from step1_column_reduction [OF g1 g2 g3 g4 g5]
  obtain B' where b: "step1 fl_sub ex_big = Inr (ex_big\<lparr>costMat := B'\<rparr>, 2)"
    by (elim exE conjE) (rule that, assumption+)
  have "step1 fl_sub ex_big = Inr (ex_big\<lparr>costMat :=
      \<lparr>nrows = 2, ncols = 1, cells = [[9007199254740992], [0]]\<rparr>\<rparr>, 2)"
    by code_simp
  with b have "cells B' = [[9007199254740992], [0]]" by auto
  with b have r2: "\<exists>A'. step1 fl_sub ex_big = Inr (ex_big\<lparr>costMat := A'\<rparr>, 2) \<and>
      cells A' = [[9007199254740992], [0]]" by blast
  show ?thesis by (intro conjI) (fact h1 h2 h3 h4 h5 r1 g1 g2 g3 g4 g5 r2)+
qed

text \<open>
  C7. Let the subtraction of the element type give zero for a value minus itself, a result
  that is not negative for a value minus a smaller one, and the value itself for a value
  minus zero (as float64 and real subtraction do). On a solver whose cost matrix has at
  least one row: if the minimum of every column is already 0, \<open>step1\<close> returns the solver
  unchanged; and in any case the solver that \<open>step1\<close> returns is returned unchanged by a
  second \<open>step1\<close>.
\<close>

theorem step1_idempotent:
  assumes "well_formed s" and "0 < n s"
    and "cancels sub" and "sign_correct sub" and "zero_exact sub"
  shows "((\<forall>j<m s. col_min (costMat s) j = 0) \<longrightarrow> step1 sub s = Inr (s, 2)) \<and>
         (\<exists>s1. step1 sub s = Inr (s1, 2) \<and> step1 sub s1 = Inr (s1, 2))"
proof
  show "(\<forall>j<m s. col_min (costMat s) j = 0) \<longrightarrow> step1 sub s = Inr (s, 2)"
    using assms(1,2,5) by (blast intro: step1_already_reduced)
  show "\<exists>s1. step1 sub s = Inr (s1, 2) \<and> step1 sub s1 = Inr (s1, 2)"
    using assms by (rule step1_twice)
qed

theorem step1_idempotent_witness:
  "well_formed ex_solver \<and> 0 < n ex_solver \<and> col_min (costMat ex_solver) 0 = 0 \<and>
   col_min (costMat ex_solver) 1 = 0 \<and> col_min (costMat ex_solver) 2 = 0 \<and>
   step1 (\<lambda>a b. a - b) ex_solver = Inr (ex_solver, 2) \<and>
   well_formed ex_unreduced \<and> 0 < n ex_unreduced \<and>
   (\<exists>s1. step1 (\<lambda>a b. a - b) ex_unreduced = Inr (s1, 2) \<and>
      step1 (\<lambda>a b. a - b) s1 = Inr (s1, 2) \<and>
      cells (costMat s1) = [[2, 0, 2], [0, 3, 2], [1, 1, 0]]) \<and>
   well_formed ex_big \<and> 0 < n ex_big \<and>
   cancels fl_sub \<and> sign_correct fl_sub \<and> zero_exact fl_sub \<and>
   (\<exists>s1. step1 fl_sub ex_big = Inr (s1, 2) \<and> step1 fl_sub s1 = Inr (s1, 2) \<and>
      cells (costMat s1) = [[9007199254740992], [0]])"
proof -
  note e = real_subtraction_laws(1,3,4)
  have h1: "well_formed ex_solver" by code_simp
  have h2: "0 < n ex_solver" by simp
  have c: "col_min (costMat ex_solver) 0 = 0" "col_min (costMat ex_solver) 1 = 0"
    "col_min (costMat ex_solver) 2 = 0"
    by (simp_all add: col_min_def cell_def lessThan_Suc numeral_3_eq_3)
  have "\<forall>j<m ex_solver. col_min (costMat ex_solver) j = 0"
    using c by (simp add: numeral_3_eq_3 numeral_2_eq_2 less_Suc_eq)
  with step1_idempotent [OF h1 h2 e]
  have a: "step1 (\<lambda>a b. a - b) ex_solver = Inr (ex_solver, 2)" by blast
  have g1: "well_formed ex_unreduced" by code_simp
  have g2: "0 < n ex_unreduced" by simp
  from step1_idempotent [OF g1 g2 e] obtain s1 where
    s1: "step1 (\<lambda>a b. a - b) ex_unreduced = Inr (s1, 2)" "step1 (\<lambda>a b. a - b) s1 = Inr (s1, 2)"
    by (elim exE conjE) (rule that, assumption+)
  have "step1 (\<lambda>a b. a - b) ex_unreduced = Inr (ex_unreduced\<lparr>costMat :=
      \<lparr>nrows = 3, ncols = 3, cells = [[2, 0, 2], [0, 3, 2], [1, 1, 0]]\<rparr>\<rparr>, 2)"
    by code_simp
  with s1(1) have "cells (costMat s1) = [[2, 0, 2], [0, 3, 2], [1, 1, 0]]" by auto
  with s1 have r1: "\<exists>s1. step1 (\<lambda>a b. a - b) ex_unreduced = Inr (s1, 2) \<and>
      step1 (\<lambda>a b. a - b) s1 = Inr (s1, 2) \<and>
      cells (costMat s1) = [[2, 0, 2], [0, 3, 2], [1, 1, 0]]" by blast
  have k1: "well_formed ex_big" by code_simp
  have k2: "0 < n ex_big" by simp
  note f = fl_sub_laws(1,3,4)
  from step1_idempotent [OF k1 k2 f] obtain s2 where
    s2: "step1 fl_sub ex_big = Inr (s2, 2)" "step1 fl_sub s2 = Inr (s2, 2)"
    by (elim exE conjE) (rule that, assumption+)
  have "step1 fl_sub ex_big = Inr (ex_big\<lparr>costMat :=
      \<lparr>nrows = 2, ncols = 1, cells = [[9007199254740992], [0]]\<rparr>\<rparr>, 2)"
    by code_simp
  with s2(1) have "cells (costMat s2) = [[9007199254740992], [0]]" by auto
  with s2 have r2: "\<exists>s1. step1 fl_sub ex_big = Inr (s1, 2) \<and> step1 fl_sub s1 = Inr (s1, 2) \<and>
      cells (costMat s1) = [[9007199254740992], [0]]" by blast
  show ?thesis by (intro conjI) (fact h1 h2 c a g1 g2 r1 k1 k2 f r2)+
qed

text \<open>
  The subtraction of the reals has the three laws, so the two statements hold as they
  stand for exact arithmetic.
\<close>

lemma step1_idempotent_exact:
  assumes "well_formed s" and "0 < n s"
  shows "((\<forall>j<m s. col_min (costMat s) j = 0) \<longrightarrow> step1 (\<lambda>a b. a - b) s = Inr (s, 2)) \<and>
         (\<exists>s1. step1 (\<lambda>a b. a - b) s = Inr (s1, 2) \<and> step1 (\<lambda>a b. a - b) s1 = Inr (s1, 2))"
proof
  show "(\<forall>j<m s. col_min (costMat s) j = 0) \<longrightarrow> step1 (\<lambda>a b. a - b) s = Inr (s, 2)"
    using assms real_subtraction_laws(4) by (blast intro: step1_already_reduced)
  show "\<exists>s1. step1 (\<lambda>a b. a - b) s = Inr (s1, 2) \<and> step1 (\<lambda>a b. a - b) s1 = Inr (s1, 2)"
    using assms real_subtraction_laws(1,3,4) by (rule step1_twice)
qed

section \<open>The search for an uncovered zero\<close>

lemma sorted_product:
  "sorted_wrt (<) xs \<Longrightarrow> sorted_wrt (<) ys \<Longrightarrow> sorted_wrt scan_before (List.product xs ys)"
proof (induction xs)
  case Nil
  then show ?case by simp
next
  case (Cons x xs)
  have "sorted_wrt scan_before (map (Pair x) ys)"
    using Cons.prems(2) by (simp add: sorted_wrt_map scan_before_def)
  moreover have "sorted_wrt scan_before (List.product xs ys)"
    using Cons by simp
  moreover have "\<forall>p\<in>set (map (Pair x) ys). \<forall>q\<in>set (List.product xs ys). scan_before p q"
    using Cons.prems(1) by (auto simp: scan_before_def)
  ultimately show ?case by (simp add: sorted_wrt_append)
qed

lemma scan_order_sorted: "sorted_wrt scan_before (scan_order k l)"
  unfolding scan_order_def by (intro sorted_product) simp_all

lemma set_scan_order: "set (scan_order k l) = {pos. fst pos < k \<and> snd pos < l}"
  by (auto simp: scan_order_def)

lemma sorted_wrt_last:
  "sorted_wrt R xs \<Longrightarrow> x \<in> set xs \<Longrightarrow> x = last xs \<or> R x (last xs)"
  by (induction xs) auto

lemma findUncovZero_loop_last:
  assumes "well_formed s" and "\<forall>pos\<in>set ps. fst pos < n s \<and> snd pos < m s"
  shows "findUncovZero_loop s (map (\<lambda>pos. (pos, cell (costMat s) (fst pos) (snd pos))) ps) acc =
         Inr (if filter (uncov_zero s) ps = [] then acc
              else Some (last (filter (uncov_zero s) ps)))"
  using assms(2)
proof (induction ps arbitrary: acc)
  case Nil
  then show ?case by simp
next
  case (Cons p ps)
  from assms(1) have len: "length (row_covered s) = n s" "length (col_covered s) = m s"
    by (simp_all add: well_formed_def)
  from Cons.prems have p: "fst p < n s" "snd p < m s" by simp_all
  from Cons.prems have rest: "\<forall>pos\<in>set ps. fst pos < n s \<and> snd pos < m s" by simp
  have here: "uncov_zero s p \<longleftrightarrow>
      cell (costMat s) (fst p) (snd p) = 0 \<and> \<not> col_covered s ! snd p \<and> \<not> row_covered s ! fst p"
    using p by (simp add: uncov_zero_def)
  show ?case
    using p len by (simp add: Cons.IH [OF rest] list_getitem_def here)
qed

lemma findUncovZero_last:
  assumes "well_formed s"
  shows "findUncovZero s =
         Inr (if filter (uncov_zero s) (scan_order (n s) (m s)) = [] then None
              else Some (last (filter (uncov_zero s) (scan_order (n s) (m s)))))"
proof -
  from assms have sh: "nrows (costMat s) = n s" "ncols (costMat s) = m s"
    by (simp_all add: well_formed_def)
  have "\<forall>pos\<in>set (scan_order (n s) (m s)). fst pos < n s \<and> snd pos < m s"
    by (simp add: set_scan_order)
  from findUncovZero_loop_last [OF assms this] show ?thesis
    by (simp add: findUncovZero_def ndenumerate_def sh)
qed

text \<open>
  C8. On a well-formed solver \<open>_findUncovZero\<close> returns; the result is \<open>None\<close> exactly
  when no cell is a zero with its row and its column uncovered; otherwise it is the last
  uncovered zero of the row-major scan, that is, an uncovered zero that every other
  uncovered zero precedes in the scan order.
\<close>

theorem findUncovZero_spec:
  assumes "well_formed s"
  shows "\<exists>z. findUncovZero s = Inr z \<and>
           z = (case filter (uncov_zero s) (scan_order (n s) (m s)) of
                  [] \<Rightarrow> None | p # ps \<Rightarrow> Some (last (p # ps))) \<and>
           (z = None \<longleftrightarrow> \<not> (\<exists>pos. uncov_zero s pos)) \<and>
           (\<forall>pos. z = Some pos \<longrightarrow>
              uncov_zero s pos \<and>
              (\<forall>pos'. uncov_zero s pos' \<longrightarrow> pos' = pos \<or> scan_before pos' pos))"
proof -
  define zs where "zs = filter (uncov_zero s) (scan_order (n s) (m s))"
  define z where "z = (if zs = [] then None else Some (last zs))"
  have set_zs: "pos \<in> set zs \<longleftrightarrow> uncov_zero s pos" for pos
    unfolding zs_def by (auto simp: set_scan_order uncov_zero_def)
  have sorted: "sorted_wrt scan_before zs"
    unfolding zs_def by (intro sorted_wrt_filter scan_order_sorted)
  have a: "findUncovZero s = Inr z"
    unfolding z_def zs_def using assms by (rule findUncovZero_last)
  have b: "z = (case zs of [] \<Rightarrow> None | p # ps \<Rightarrow> Some (last (p # ps)))"
    unfolding z_def by (cases zs) simp_all
  have "zs = [] \<longleftrightarrow> \<not> (\<exists>pos. pos \<in> set zs)"
    by (cases zs) auto
  then have c: "z = None \<longleftrightarrow> \<not> (\<exists>pos. uncov_zero s pos)"
    unfolding z_def by (simp add: set_zs)
  have d: "\<forall>pos. z = Some pos \<longrightarrow>
      uncov_zero s pos \<and> (\<forall>pos'. uncov_zero s pos' \<longrightarrow> pos' = pos \<or> scan_before pos' pos)"
  proof (intro allI impI conjI)
    fix pos assume "z = Some pos"
    then have ne: "zs \<noteq> []" and pos: "pos = last zs"
      unfolding z_def by (simp_all split: if_splits)
    from ne have "last zs \<in> set zs" by (rule last_in_set)
    with pos show "uncov_zero s pos" by (simp add: set_zs)
    fix pos' assume "uncov_zero s pos'"
    then have "pos' \<in> set zs" by (simp add: set_zs)
    from sorted_wrt_last [OF sorted this] pos show "pos' = pos \<or> scan_before pos' pos"
      by simp
  qed
  from a b c d show ?thesis unfolding zs_def by (intro exI [of _ z] conjI)
qed

theorem findUncovZero_spec_witness:
  "well_formed ex_half_covered \<and>
   findUncovZero ex_half_covered = Inr (Some (1, 0)) \<and>
   uncov_zero ex_half_covered (0, 0) \<and> uncov_zero ex_half_covered (0, 2) \<and>
   uncov_zero ex_half_covered (1, 0) \<and>
   scan_before (0, 0) (1, 0) \<and> scan_before (0, 2) (1, 0) \<and>
   well_formed ex_nozero \<and> findUncovZero ex_nozero = Inr None \<and>
   \<not> (\<exists>pos. uncov_zero ex_nozero pos)"
proof -
  have h: "well_formed ex_half_covered" by code_simp
  from findUncovZero_spec [OF h] obtain z where
    z: "findUncovZero ex_half_covered = Inr z"
       "\<forall>pos. z = Some pos \<longrightarrow> uncov_zero ex_half_covered pos \<and>
          (\<forall>pos'. uncov_zero ex_half_covered pos' \<longrightarrow> pos' = pos \<or> scan_before pos' pos)"
    by (elim exE conjE) (rule that, assumption+)
  have e: "findUncovZero ex_half_covered = Inr (Some (1, 0))" by code_simp
  with z(1) have "z = Some (1, 0)" by simp
  with z(2) have u: "uncov_zero ex_half_covered (1, 0)"
    and others: "\<And>pos'. uncov_zero ex_half_covered pos' \<Longrightarrow>
      pos' = (1, 0) \<or> scan_before pos' (1, 0)"
    by blast+
  have v1: "uncov_zero ex_half_covered (0, 0)" by code_simp
  have v2: "uncov_zero ex_half_covered (0, 2)" by code_simp
  from others [OF v1] have b1: "scan_before (0, 0) (1, 0)" by simp
  from others [OF v2] have b2: "scan_before (0, 2) (1, 0)" by simp
  have g: "well_formed ex_nozero" by code_simp
  from findUncovZero_spec [OF g] obtain y where
    y: "findUncovZero ex_nozero = Inr y" "y = None \<longleftrightarrow> \<not> (\<exists>pos. uncov_zero ex_nozero pos)"
    by (elim exE conjE) (rule that, assumption+)
  have f: "findUncovZero ex_nozero = Inr None" by code_simp
  with y(1) have "y = None" by simp
  with y(2) have k: "\<not> (\<exists>pos. uncov_zero ex_nozero pos)" by simp
  show ?thesis by (intro conjI) (fact h e v1 v2 u b1 b2 g f k)+
qed

section \<open>Starring\<close>

lemma init_well_formed:
  assumes "valid_array A" "init A = Inr s"
  shows "well_formed s \<and> (\<forall>r<n s. \<forall>c<m s. \<not> cell (starred s) r c)"
proof -
  from assms(2) have s: "s = \<lparr>n = nrows A, m = ncols A, costMat = A,
                marked = np_full (shape A) False,
                starred = np_full (shape A) False,
                primed = np_full (shape A) False,
                row_covered = map (\<lambda>i. False) [0..<nrows A],
                col_covered = map (\<lambda>i. False) [0..<ncols A],
                independent = np_full (shape A) False,
                z1_r = None, z1_c = None,
                rowResiduals = None, colResiduals = None\<rparr>"
    by (simp add: init_def Let_def split: if_splits)
  show ?thesis
    unfolding s using assms(1)
    by (simp add: well_formed_def valid_np_full shape_def shape_np_full cell_np_full)
qed

lemma star_in_range:
  assumes "well_formed s" "row < n s" "col < m s"
  shows "\<exists>hit_row hit_col.
     for_break (\<lambda>j. if col \<noteq> j then getitem (starred s) row j else Inr False) [0..<m s]
       = Inr hit_row \<and>
     for_break (\<lambda>i. if row \<noteq> i then getitem (starred s) i col else Inr False) [0..<n s]
       = Inr hit_col \<and>
     (hit_row \<or> hit_col \<longleftrightarrow> other_star (starred s) row col)"
proof -
  let ?S = "starred s"
  from assms have sh: "nrows ?S = n s" "ncols ?S = m s" by (simp_all add: well_formed_def)
  have r: "for_break (\<lambda>j. if col \<noteq> j then getitem ?S row j else Inr False) [0..<m s]
      = Inr (\<exists>j\<in>set [0..<m s]. j \<noteq> col \<and> cell ?S row j)"
    using assms(2) sh by (intro for_break_total) (auto simp: getitem_def)
  have c: "for_break (\<lambda>i. if row \<noteq> i then getitem ?S i col else Inr False) [0..<n s]
      = Inr (\<exists>i\<in>set [0..<n s]. i \<noteq> row \<and> cell ?S i col)"
    using assms(3) sh by (intro for_break_total) (auto simp: getitem_def)
  have "(\<exists>j\<in>set [0..<m s]. j \<noteq> col \<and> cell ?S row j) \<or>
        (\<exists>i\<in>set [0..<n s]. i \<noteq> row \<and> cell ?S i col) \<longleftrightarrow> other_star ?S row col"
    using sh by (auto simp: other_star_def)
  with r c show ?thesis by blast
qed

lemma star_result:
  assumes "well_formed s" "row < n s" "col < m s"
  shows "\<exists>S'. star s (row, col) = Inr (s\<lparr>starred := S'\<rparr>) \<and> valid_array S' \<and>
           nrows S' = n s \<and> ncols S' = m s \<and>
           (\<forall>r<n s. \<forall>c<m s.
              cell S' r c =
                (if r = row \<and> c = col
                 then cell (starred s) r c \<or> \<not> other_star (starred s) row col
                 else cell (starred s) r c))"
proof -
  let ?S = "starred s"
  from assms have v: "valid_array ?S" and sh: "nrows ?S = n s" "ncols ?S = m s"
    by (simp_all add: well_formed_def)
  from star_in_range [OF assms] obtain hit_row hit_col where
    loops: "for_break (\<lambda>j. if col \<noteq> j then getitem ?S row j else Inr False) [0..<m s]
       = Inr hit_row"
     "for_break (\<lambda>i. if row \<noteq> i then getitem ?S i col else Inr False) [0..<n s]
       = Inr hit_col"
     and hit: "hit_row \<or> hit_col \<longleftrightarrow> other_star ?S row col"
    by blast
  show ?thesis
  proof (cases "other_star ?S row col")
    case True
    with hit loops have "star s (row, col) = Inr s" by (auto simp: star_def)
    then have "star s (row, col) = Inr (s\<lparr>starred := ?S\<rparr>)" by simp
    with v sh True show ?thesis by (intro exI [of _ ?S]) simp
  next
    case False
    from setitem_in_range [of ?S row col True] v sh assms(2,3)
    obtain S' where S': "setitem ?S row col True = Inr S'" "valid_array S'"
      "nrows S' = n s" "ncols S' = m s"
      "\<forall>r'<n s. \<forall>c'<m s. cell S' r' c' = (if r' = row \<and> c' = col then True else cell ?S r' c')"
      by auto
    from False hit loops S'(1) have "star s (row, col) = Inr (s\<lparr>starred := S'\<rparr>)"
      by (simp add: star_def)
    with S' False show ?thesis by (intro exI [of _ S']) simp
  qed
qed

lemma exclusive_after_star:
  assumes ex: "exclusive S" and sh: "nrows S' = nrows S" "ncols S' = ncols S"
    and pos: "row < nrows S" "col < ncols S"
    and upd: "\<forall>r<nrows S. \<forall>c<ncols S.
              cell S' r c =
                (if r = row \<and> c = col then cell S r c \<or> \<not> other_star S row col
                 else cell S r c)"
  shows "exclusive S'"
  unfolding exclusive_def
proof (intro allI impI, elim conjE)
  fix r c r' c'
  assume rng: "r < nrows S'" "c < ncols S'" "r' < nrows S'" "c' < ncols S'"
    and st: "cell S' r c" "cell S' r' c'" and share: "r = r' \<or> c = c'"
  from rng sh have rng': "r < nrows S" "c < ncols S" "r' < nrows S" "c' < ncols S" by simp_all
  from upd rng' have u1: "cell S' r c =
      (if r = row \<and> c = col then cell S r c \<or> \<not> other_star S row col else cell S r c)"
    and u2: "cell S' r' c' =
      (if r' = row \<and> c' = col then cell S r' c' \<or> \<not> other_star S row col else cell S r' c')"
    by blast+
  show "r = r' \<and> c = c'"
  proof (rule ccontr)
    assume diff: "\<not> (r = r' \<and> c = c')"
    have old: "cell S r c \<and> cell S r' c'"
    proof (cases "(r = row \<and> c = col) \<or> (r' = row \<and> c' = col)")
      case False
      with st u1 u2 show ?thesis by (auto split: if_splits)
    next
      case True
      have "other_star S row col"
      proof (rule ccontr)
        assume no: "\<not> other_star S row col"
        with st u1 u2 True diff have "cell S r c \<or> cell S r' c'"
          by (auto split: if_splits)
        with True diff share rng' st u1 u2 have "other_star S row col"
          unfolding other_star_def by (auto split: if_splits)
        with no show False by simp
      qed
      with st u1 u2 show ?thesis by (auto split: if_splits)
    qed
    with ex rng' share diff show False unfolding exclusive_def by blast
  qed
qed

lemma no_star_exclusive:
  "\<forall>r<nrows S. \<forall>c<ncols S. \<not> cell S r c \<Longrightarrow> exclusive S"
  by (simp add: exclusive_def)

text \<open>
  C2, as the code has it. \<open>star\<close> tests every row alike, the virtual row included: the
  cell is starred unless another cell of its row or another cell of its column is starred
  already, and no other cell changes. The fresh solver has an exclusive star grid and
  \<open>star\<close> keeps the grid exclusive; so after every call no column and no row, the
  virtual row included, has two starred entries, and two cells of the virtual row are
  never starred together.
\<close>

theorem star_exclusive:
  "(valid_array A \<and> init A = Inr s0 \<longrightarrow> well_formed s0 \<and> exclusive (starred s0)) \<and>
   (well_formed s \<and> row < n s \<and> col < m s \<and> exclusive (starred s) \<longrightarrow>
      (\<exists>s'. star s (row, col) = Inr s' \<and> well_formed s' \<and> exclusive (starred s') \<and>
         (cell (starred s') row col \<longleftrightarrow>
            cell (starred s) row col \<or> \<not> other_star (starred s) row col) \<and>
         (\<forall>r<n s. \<forall>c<m s. (r, c) \<noteq> (row, col) \<longrightarrow>
            cell (starred s') r c = cell (starred s) r c)))"
proof (intro conjI impI)
  assume a: "valid_array A \<and> init A = Inr s0"
  then have w: "well_formed s0" and none: "\<forall>r<n s0. \<forall>c<m s0. \<not> cell (starred s0) r c"
    using init_well_formed [of A s0] by simp_all
  from w have "nrows (starred s0) = n s0" "ncols (starred s0) = m s0"
    by (simp_all add: well_formed_def)
  with none have "exclusive (starred s0)" by (intro no_star_exclusive) simp
  with w show "well_formed s0" "exclusive (starred s0)" by simp_all
next
  assume a: "well_formed s \<and> row < n s \<and> col < m s \<and> exclusive (starred s)"
  then have w: "well_formed s" and rng: "row < n s" "col < m s"
    and ex: "exclusive (starred s)" by simp_all
  from w have sh: "nrows (starred s) = n s" "ncols (starred s) = m s"
    by (simp_all add: well_formed_def)
  from star_result [OF w rng] obtain S' where
    S': "star s (row, col) = Inr (s\<lparr>starred := S'\<rparr>)" "valid_array S'"
      "nrows S' = n s" "ncols S' = m s"
    and upd: "\<forall>r<n s. \<forall>c<m s. cell S' r c =
        (if r = row \<and> c = col
         then cell (starred s) r c \<or> \<not> other_star (starred s) row col
         else cell (starred s) r c)"
    by blast
  have w': "well_formed (s\<lparr>starred := S'\<rparr>)"
    using w S'(2,3,4) by (simp add: well_formed_def)
  have ex': "exclusive S'"
    using ex S'(3,4) rng upd sh by (intro exclusive_after_star [of "starred s" S' row col]) simp_all
  have here: "cell S' row col \<longleftrightarrow>
      cell (starred s) row col \<or> \<not> other_star (starred s) row col"
    using upd rng by simp
  have rest: "\<forall>r<n s. \<forall>c<m s. (r, c) \<noteq> (row, col) \<longrightarrow> cell S' r c = cell (starred s) r c"
    using upd by simp
  show "\<exists>s'. star s (row, col) = Inr s' \<and> well_formed s' \<and> exclusive (starred s') \<and>
         (cell (starred s') row col \<longleftrightarrow>
            cell (starred s) row col \<or> \<not> other_star (starred s) row col) \<and>
         (\<forall>r<n s. \<forall>c<m s. (r, c) \<noteq> (row, col) \<longrightarrow>
            cell (starred s') r c = cell (starred s) r c)"
    using S'(1) w' ex' here rest by (intro exI [of _ "s\<lparr>starred := S'\<rparr>"]) simp
qed

theorem star_exclusive_witness:
  "valid_array ex_cost \<and> init ex_cost = Inr ex_solver \<and>
   well_formed ex_solver \<and> exclusive (starred ex_solver) \<and>
   2 < n ex_solver \<and> 0 < m ex_solver \<and>
   star ex_solver (2, 0) = Inr ex_starred \<and> exclusive (starred ex_starred) \<and>
   cell (starred ex_starred) 2 0"
proof -
  have v: "valid_array ex_cost" by code_simp
  have i: "init ex_cost = Inr ex_solver" by code_simp
  from star_exclusive [of ex_cost ex_solver] v i
  have w: "well_formed ex_solver" and e: "exclusive (starred ex_solver)" by blast+
  have r: "2 < n ex_solver" "0 < m ex_solver" by simp_all
  from star_exclusive [of _ _ ex_solver 2 0] w r e
  obtain s' where s': "star ex_solver (2, 0) = Inr s'" "exclusive (starred s')" by blast
  have st: "star ex_solver (2, 0) = Inr ex_starred" by code_simp
  with s' have e': "exclusive (starred ex_starred)" by simp
  have c: "cell (starred ex_starred) 2 0" by code_simp
  show ?thesis by (intro conjI) (fact v i w e r st e' c)+
qed

text \<open>
  C2 as stated fails: in the example the virtual row (row 2) has zeros in columns 0 and 1;
  once one of the two cells is starred, \<open>star\<close> leaves the other unstarred, in either
  order.
\<close>

theorem star_refuses_second_virtual_star:
  "n ex_solver - 1 = 2 \<and>
   cell (costMat ex_solver) 2 0 = 0 \<and> cell (costMat ex_solver) 2 1 = 0 \<and>
   star ex_solver (2, 0) = Inr ex_starred \<and>
   star ex_starred (2, 1) = Inr ex_starred \<and>
   cells (starred ex_starred) = [[False, False, False], [False, False, False], [True, False, False]] \<and>
   star ex_solver (2, 1) =
     Inr (ex_solver\<lparr>starred := \<lparr>nrows = 3, ncols = 3,
       cells = [[False, False, False], [False, False, False], [False, True, False]]\<rparr>\<rparr>) \<and>
   star (ex_solver\<lparr>starred := \<lparr>nrows = 3, ncols = 3,
       cells = [[False, False, False], [False, False, False], [False, True, False]]\<rparr>\<rparr>) (2, 0) =
     Inr (ex_solver\<lparr>starred := \<lparr>nrows = 3, ncols = 3,
       cells = [[False, False, False], [False, False, False], [False, True, False]]\<rparr>\<rparr>)"
  by code_simp

section \<open>Step 2\<close>

lemma isIndependent_spec:
  assumes "well_formed s" "row < n s" "col < m s"
  shows "isIndependent s (row, col) =
           Inr (int row = int (n s) - 1 \<or> \<not> other_zero (costMat s) row col)"
proof -
  let ?A = "costMat s"
  from assms have sh: "nrows ?A = n s" "ncols ?A = m s" by (simp_all add: well_formed_def)
  have r: "for_break (\<lambda>j. if col \<noteq> j
                            then (case getitem ?A row j of Inl e \<Rightarrow> Inl e | Inr v \<Rightarrow> Inr (v = 0))
                            else Inr False) [0..<m s]
      = Inr (\<exists>j\<in>set [0..<m s]. j \<noteq> col \<and> cell ?A row j = 0)"
    using assms(2) sh by (intro for_break_total) (auto simp: getitem_def)
  have c: "for_break (\<lambda>i. if row \<noteq> i
                            then (case getitem ?A i col of Inl e \<Rightarrow> Inl e | Inr v \<Rightarrow> Inr (v = 0))
                            else Inr False) [0..<n s]
      = Inr (\<exists>i\<in>set [0..<n s]. i \<noteq> row \<and> cell ?A i col = 0)"
    using assms(3) sh by (intro for_break_total) (auto simp: getitem_def)
  have "(\<exists>j\<in>set [0..<m s]. j \<noteq> col \<and> cell ?A row j = 0) \<or>
        (\<exists>i\<in>set [0..<n s]. i \<noteq> row \<and> cell ?A i col = 0) \<longleftrightarrow> other_zero ?A row col"
    using sh by (auto simp: other_zero_def)
  then show ?thesis
    by (auto simp: isIndependent_def Let_def r c)
qed

lemma scan_before_irrefl: "\<not> scan_before p p"
  by (simp add: scan_before_def)

lemma scan_before_asym: "scan_before p q \<Longrightarrow> \<not> scan_before q p"
  by (auto simp: scan_before_def)

lemma scan_before_row: "scan_before (r, c') (r, c) \<longleftrightarrow> c' < c"
  by (simp add: scan_before_def)

lemma scan_before_col: "scan_before (r', c) (r, c) \<longleftrightarrow> r' < r"
  by (simp add: scan_before_def)

lemma step2_visit:
  assumes "well_formed s" "row < n s" "col < m s"
  shows "\<exists>S1. (if v = (0::real) then star s (row, col) else Inr s) = Inr (s\<lparr>starred := S1\<rparr>) \<and>
           valid_array S1 \<and> nrows S1 = n s \<and> ncols S1 = m s \<and>
           (\<forall>r<n s. \<forall>c<m s.
              cell S1 r c =
                (if r = row \<and> c = col
                 then cell (starred s) r c \<or> (v = 0 \<and> \<not> other_star (starred s) row col)
                 else cell (starred s) r c))"
proof (cases "v = 0")
  case True
  from star_result [OF assms] obtain S1 where
    "star s (row, col) = Inr (s\<lparr>starred := S1\<rparr>)" "valid_array S1" "nrows S1 = n s"
    "ncols S1 = m s"
    "\<forall>r<n s. \<forall>c<m s. cell S1 r c =
        (if r = row \<and> c = col
         then cell (starred s) r c \<or> \<not> other_star (starred s) row col
         else cell (starred s) r c)"
    by blast
  with True show ?thesis by (intro exI [of _ S1]) simp
next
  case False
  from assms(1) have "valid_array (starred s)" "nrows (starred s) = n s" "ncols (starred s) = m s"
    by (simp_all add: well_formed_def)
  with False show ?thesis by (intro exI [of _ "starred s"]) simp
qed

lemma step2_loop_visit:
  "step2_loop ((pos, v) # rest) s =
     (case (if v = 0 then star s pos else Inr s) of
        Inl e \<Rightarrow> Inl e
      | Inr s' \<Rightarrow> step2_loop rest s')"
  by simp

lemma step2_loop_greedy:
  assumes "sorted_wrt scan_before ps"
    and "well_formed s"
    and "\<forall>p\<in>set ps. fst p < n s \<and> snd p < m s"
    and "\<forall>r<n s. \<forall>c<m s. cell (starred s) r c \<longrightarrow> (\<forall>p\<in>set ps. scan_before (r, c) p)"
  shows "\<exists>S'. step2_loop (map (\<lambda>p. (p, cell (costMat s) (fst p) (snd p))) ps) s
                = Inr (s\<lparr>starred := S'\<rparr>) \<and>
           valid_array S' \<and> nrows S' = n s \<and> ncols S' = m s \<and>
           (\<forall>r<n s. \<forall>c<m s.
              cell S' r c \<longleftrightarrow>
                (if (r, c) \<in> set ps
                 then cell (costMat s) r c = 0 \<and>
                      \<not> (\<exists>c'<c. cell S' r c') \<and> \<not> (\<exists>r'<r. cell S' r' c)
                 else cell (starred s) r c))"
  using assms
proof (induction ps arbitrary: s)
  case Nil
  from Nil.prems(2) have "valid_array (starred s)" "nrows (starred s) = n s"
      "ncols (starred s) = m s"
    by (simp_all add: well_formed_def)
  then show ?case by (intro exI [of _ "starred s"]) simp
next
  case (Cons p rest)
  obtain r0 c0 where p: "p = (r0, c0)" by (cases p)
  let ?S = "starred s" and ?A = "costMat s"
  let ?v = "cell ?A r0 c0"
  from Cons.prems(1) have sorted_rest: "sorted_wrt scan_before rest"
    and p_first: "\<forall>q\<in>set rest. scan_before p q" by simp_all
  from p_first have p_fresh: "p \<notin> set rest" using scan_before_irrefl by blast
  from Cons.prems(3) p have rng0: "r0 < n s" "c0 < m s" by simp_all
  from Cons.prems(2) have sh: "nrows ?S = n s" "ncols ?S = m s"
    by (simp_all add: well_formed_def)
  have past: "scan_before (r, c) q"
    if "r < n s" "c < m s" "cell ?S r c" "q \<in> set (p # rest)" for r c q
    using Cons.prems(4) that by blast
  have unvisited: "(r, c) \<notin> set (p # rest)" if "r < n s" "c < m s" "cell ?S r c" for r c
    using past [OF that] scan_before_irrefl by blast
  from step2_visit [OF Cons.prems(2) rng0, of ?v] obtain S1 where
    visit: "(if ?v = 0 then star s (r0, c0) else Inr s) = Inr (s\<lparr>starred := S1\<rparr>)"
    and S1: "valid_array S1" "nrows S1 = n s" "ncols S1 = m s"
    and upd: "\<And>r c. r < n s \<Longrightarrow> c < m s \<Longrightarrow>
        cell S1 r c = (if r = r0 \<and> c = c0
                       then cell ?S r c \<or> (?v = 0 \<and> \<not> other_star ?S r0 c0)
                       else cell ?S r c)"
    by blast
  let ?s1 = "s\<lparr>starred := S1\<rparr>"
  have wf1: "well_formed ?s1" using Cons.prems(2) S1 by (simp add: well_formed_def)
  have rng1: "\<forall>q\<in>set rest. fst q < n ?s1 \<and> snd q < m ?s1" using Cons.prems(3) by simp
  have past1: "\<forall>r<n ?s1. \<forall>c<m ?s1. cell (starred ?s1) r c \<longrightarrow>
      (\<forall>q\<in>set rest. scan_before (r, c) q)"
  proof (intro allI impI ballI)
    fix r c q assume a: "r < n ?s1" "c < m ?s1" "cell (starred ?s1) r c" "q \<in> set rest"
    show "scan_before (r, c) q"
    proof (cases "r = r0 \<and> c = c0")
      case True
      with p p_first a(4) show ?thesis by simp
    next
      case False
      with a upd [of r c] have "cell ?S r c" by simp
      with a show ?thesis by (intro past) simp_all
    qed
  qed
  from Cons.IH [OF sorted_rest wf1 rng1 past1] obtain S' where
    run: "step2_loop (map (\<lambda>q. (q, cell ?A (fst q) (snd q))) rest) ?s1 = Inr (?s1\<lparr>starred := S'\<rparr>)"
    and S': "valid_array S'" "nrows S' = n s" "ncols S' = m s"
    and ih: "\<And>r c. r < n s \<Longrightarrow> c < m s \<Longrightarrow>
        cell S' r c \<longleftrightarrow>
          (if (r, c) \<in> set rest
           then cell ?A r c = 0 \<and> \<not> (\<exists>c'<c. cell S' r c') \<and> \<not> (\<exists>r'<r. cell S' r' c)
           else cell S1 r c)"
    by auto
  have total: "step2_loop (map (\<lambda>q. (q, cell ?A (fst q) (snd q))) (p # rest)) s
      = Inr (s\<lparr>starred := S'\<rparr>)"
    using visit run by (simp only: list.map p fst_conv snd_conv step2_loop_visit) simp
  have not_yet: "\<not> cell ?S r0 c0"
    using unvisited [OF rng0] p by auto
  have earlier: "cell S' r c = cell ?S r c"
    if "r < n s" "c < m s" "scan_before (r, c) p" for r c
  proof -
    from that(3) p_first have "(r, c) \<notin> set rest" using scan_before_asym by blast
    moreover from that(3) p have "\<not> (r = r0 \<and> c = c0)" using scan_before_irrefl by auto
    ultimately show ?thesis using ih [OF that(1,2)] upd [OF that(1,2)] by auto
  qed
  have test: "other_star ?S r0 c0 \<longleftrightarrow> (\<exists>c'<c0. cell S' r0 c') \<or> (\<exists>r'<r0. cell S' r' c0)"
  proof
    assume "other_star ?S r0 c0"
    then consider j where "j < m s" "j \<noteq> c0" "cell ?S r0 j"
      | i where "i < n s" "i \<noteq> r0" "cell ?S i c0"
      unfolding other_star_def using sh by auto
    then show "(\<exists>c'<c0. cell S' r0 c') \<or> (\<exists>r'<r0. cell S' r' c0)"
    proof cases
      case 1
      from past [OF rng0(1) 1(1) 1(3), of p] p have b: "scan_before (r0, j) (r0, c0)" by simp
      then have "j < c0" by (simp add: scan_before_row)
      moreover from b p earlier [OF rng0(1) 1(1)] 1(3) have "cell S' r0 j" by simp
      ultimately show ?thesis by blast
    next
      case 2
      from past [OF 2(1) rng0(2) 2(3), of p] p have b: "scan_before (i, c0) (r0, c0)" by simp
      then have "i < r0" by (simp add: scan_before_col)
      moreover from b p earlier [OF 2(1) rng0(2)] 2(3) have "cell S' i c0" by simp
      ultimately show ?thesis by blast
    qed
  next
    assume "(\<exists>c'<c0. cell S' r0 c') \<or> (\<exists>r'<r0. cell S' r' c0)"
    then show "other_star ?S r0 c0"
    proof
      assume "\<exists>c'<c0. cell S' r0 c'"
      then obtain c' where c': "c' < c0" "cell S' r0 c'" by blast
      with rng0 have "c' < m s" by simp
      from earlier [OF rng0(1) this] c' p have "cell ?S r0 c'" by (simp add: scan_before_row)
      with c'(1) \<open>c' < m s\<close> sh show ?thesis unfolding other_star_def by auto
    next
      assume "\<exists>r'<r0. cell S' r' c0"
      then obtain r' where r': "r' < r0" "cell S' r' c0" by blast
      with rng0 have "r' < n s" by simp
      from earlier [OF this rng0(2)] r' p have "cell ?S r' c0" by (simp add: scan_before_col)
      with r'(1) \<open>r' < n s\<close> sh show ?thesis unfolding other_star_def by auto
    qed
  qed
  have here: "cell S' r0 c0 \<longleftrightarrow>
      ?v = 0 \<and> \<not> (\<exists>c'<c0. cell S' r0 c') \<and> \<not> (\<exists>r'<r0. cell S' r' c0)"
    using ih [OF rng0] upd [OF rng0] p p_fresh not_yet test by auto
  have char: "cell S' r c \<longleftrightarrow>
      (if (r, c) \<in> set (p # rest)
       then cell ?A r c = 0 \<and> \<not> (\<exists>c'<c. cell S' r c') \<and> \<not> (\<exists>r'<r. cell S' r' c)
       else cell ?S r c)"
    if "r < n s" "c < m s" for r c
  proof (cases "(r, c) = p")
    case True
    with p here show ?thesis by simp
  next
    case False
    with p ih [OF that] upd [OF that] show ?thesis by auto
  qed
  from total S' char show ?case by (intro exI [of _ S']) simp
qed

lemma greedy_exclusive:
  assumes "\<forall>r<nrows S. \<forall>c<ncols S.
      cell S r c \<longrightarrow> \<not> (\<exists>c'<c. cell S r c') \<and> \<not> (\<exists>r'<r. cell S r' c)"
  shows "exclusive S"
  unfolding exclusive_def
proof (intro allI impI, elim conjE)
  fix r c r' c'
  assume rng: "r < nrows S" "c < ncols S" "r' < nrows S" "c' < ncols S"
    and st: "cell S r c" "cell S r' c'" and share: "r = r' \<or> c = c'"
  from assms rng st have a: "\<not> (\<exists>k<c. cell S r k)" "\<not> (\<exists>k<r. cell S k c)"
    and b: "\<not> (\<exists>k<c'. cell S r' k)" "\<not> (\<exists>k<r'. cell S k c')"
    by blast+
  from share show "r = r' \<and> c = c'"
  proof
    assume "r = r'"
    with a(1) b(1) st have "\<not> c' < c" "\<not> c < c'" by blast+
    with \<open>r = r'\<close> show ?thesis by simp
  next
    assume "c = c'"
    with a(2) b(2) st have "\<not> r' < r" "\<not> r < r'" by blast+
    with \<open>c = c'\<close> show ?thesis by simp
  qed
qed

text \<open>
  C3, as the code has it. \<open>step2\<close> visits the zeros in row-major order and calls
  \<open>star\<close> on each; it never calls \<open>_isIndependent\<close>. Run on a solver without stars it
  returns 3 and an exclusive star grid in which a cell, of whatever row, is starred exactly
  when it is a zero and no cell visited before it in its row (to its left) or in its column
  (above it) is starred: the test is on the stars placed so far, not on the zeros of the
  matrix. \<open>_isIndependent\<close> itself is as described: true for a cell of the virtual row,
  and for another cell true exactly when no other zero lies in its row or its column.
\<close>

theorem step2_stars_by_star_test:
  "(well_formed s \<and> (\<forall>r<n s. \<forall>c<m s. \<not> cell (starred s) r c) \<longrightarrow>
      (\<exists>S'. step2 s = Inr (s\<lparr>starred := S'\<rparr>, 3) \<and>
         valid_array S' \<and> nrows S' = n s \<and> ncols S' = m s \<and> exclusive S' \<and>
         (\<forall>r<n s. \<forall>c<m s.
            cell S' r c \<longleftrightarrow>
              cell (costMat s) r c = 0 \<and>
              \<not> (\<exists>c'<c. cell S' r c') \<and> \<not> (\<exists>r'<r. cell S' r' c)))) \<and>
   (well_formed s \<and> row < n s \<and> col < m s \<longrightarrow>
      isIndependent s (row, col) =
        Inr (int row = int (n s) - 1 \<or> \<not> other_zero (costMat s) row col))"
proof (intro conjI impI)
  assume "well_formed s \<and> row < n s \<and> col < m s"
  then show "isIndependent s (row, col) =
      Inr (int row = int (n s) - 1 \<or> \<not> other_zero (costMat s) row col)"
    by (intro isIndependent_spec) simp_all
next
  assume a: "well_formed s \<and> (\<forall>r<n s. \<forall>c<m s. \<not> cell (starred s) r c)"
  then have w: "well_formed s" and none: "\<forall>r<n s. \<forall>c<m s. \<not> cell (starred s) r c"
    by simp_all
  from w have sh: "nrows (costMat s) = n s" "ncols (costMat s) = m s"
    by (simp_all add: well_formed_def)
  let ?ps = "scan_order (n s) (m s)"
  have mem: "(r, c) \<in> set ?ps \<longleftrightarrow> r < n s \<and> c < m s" for r c
    by (simp add: set_scan_order)
  have sorted: "sorted_wrt scan_before ?ps" by (rule scan_order_sorted)
  have rng: "\<forall>p\<in>set ?ps. fst p < n s \<and> snd p < m s" by (simp add: set_scan_order)
  have past: "\<forall>r<n s. \<forall>c<m s. cell (starred s) r c \<longrightarrow> (\<forall>p\<in>set ?ps. scan_before (r, c) p)"
    using none by simp
  from step2_loop_greedy [OF sorted w rng past] obtain S' where
    run: "step2_loop (map (\<lambda>p. (p, cell (costMat s) (fst p) (snd p))) ?ps) s
            = Inr (s\<lparr>starred := S'\<rparr>)"
    and S': "valid_array S'" "nrows S' = n s" "ncols S' = m s"
    and char0: "\<forall>r<n s. \<forall>c<m s.
        cell S' r c \<longleftrightarrow>
          (if (r, c) \<in> set ?ps
           then cell (costMat s) r c = 0 \<and>
                \<not> (\<exists>c'<c. cell S' r c') \<and> \<not> (\<exists>r'<r. cell S' r' c)
           else cell (starred s) r c)"
    by (elim exE conjE) (rule that, assumption+)
  have char: "\<forall>r<n s. \<forall>c<m s.
        cell S' r c \<longleftrightarrow>
          cell (costMat s) r c = 0 \<and> \<not> (\<exists>c'<c. cell S' r c') \<and> \<not> (\<exists>r'<r. cell S' r' c)"
  proof (intro allI impI)
    fix r c assume a: "r < n s" "c < m s"
    then have "(r, c) \<in> set ?ps" by (simp add: mem)
    moreover from char0 a have "cell S' r c \<longleftrightarrow>
          (if (r, c) \<in> set ?ps
           then cell (costMat s) r c = 0 \<and>
                \<not> (\<exists>c'<c. cell S' r c') \<and> \<not> (\<exists>r'<r. cell S' r' c)
           else cell (starred s) r c)"
      by blast
    ultimately show "cell S' r c \<longleftrightarrow>
          cell (costMat s) r c = 0 \<and> \<not> (\<exists>c'<c. cell S' r c') \<and> \<not> (\<exists>r'<r. cell S' r' c)"
      by simp
  qed
  from run have res: "step2 s = Inr (s\<lparr>starred := S'\<rparr>, 3)"
    by (simp add: step2_def ndenumerate_def sh)
  have "\<forall>r<nrows S'. \<forall>c<ncols S'.
      cell S' r c \<longrightarrow> \<not> (\<exists>c'<c. cell S' r c') \<and> \<not> (\<exists>r'<r. cell S' r' c)"
    unfolding S'(2,3) using char by blast
  then have "exclusive S'" by (rule greedy_exclusive)
  with res S' char
  show "\<exists>S'. step2 s = Inr (s\<lparr>starred := S'\<rparr>, 3) \<and>
         valid_array S' \<and> nrows S' = n s \<and> ncols S' = m s \<and> exclusive S' \<and>
         (\<forall>r<n s. \<forall>c<m s.
            cell S' r c \<longleftrightarrow>
              cell (costMat s) r c = 0 \<and>
              \<not> (\<exists>c'<c. cell S' r c') \<and> \<not> (\<exists>r'<r. cell S' r' c))"
    by (intro exI [of _ S'] conjI)
qed

theorem step2_stars_by_star_test_witness:
  "well_formed ex_pair \<and>
   \<not> (\<exists>r<n ex_pair. \<exists>c<m ex_pair. cell (starred ex_pair) r c) \<and>
   (\<exists>S'. step2 ex_pair = Inr (ex_pair\<lparr>starred := S'\<rparr>, 3) \<and> exclusive S' \<and>
      cells S' = [[True, False], [False, False]]) \<and>
   0 < n ex_pair \<and> 1 < m ex_pair \<and>
   isIndependent ex_pair (0, 1) = Inr False \<and>
   other_zero (costMat ex_pair) 0 1"
proof -
  have w: "well_formed ex_pair" by code_simp
  have none: "\<forall>r<n ex_pair. \<forall>c<m ex_pair. \<not> cell (starred ex_pair) r c"
    by (auto simp: cell_def less_Suc_eq numeral_2_eq_2)
  then have none': "\<not> (\<exists>r<n ex_pair. \<exists>c<m ex_pair. cell (starred ex_pair) r c)" by blast
  from step2_stars_by_star_test [of ex_pair] w none
  obtain S' where S': "step2 ex_pair = Inr (ex_pair\<lparr>starred := S'\<rparr>, 3)" "exclusive S'"
    by blast
  have "step2 ex_pair =
     Inr (ex_pair\<lparr>starred := \<lparr>nrows = 2, ncols = 2, cells = [[True, False], [False, False]]\<rparr>\<rparr>, 3)"
    by code_simp
  with S'(1) have "cells S' = [[True, False], [False, False]]" by auto
  with S' have run: "\<exists>S'. step2 ex_pair = Inr (ex_pair\<lparr>starred := S'\<rparr>, 3) \<and> exclusive S' \<and>
      cells S' = [[True, False], [False, False]]" by blast
  have r: "0 < n ex_pair" "1 < m ex_pair" by simp_all
  from step2_stars_by_star_test [of ex_pair 0 1] w r
  have i: "isIndependent ex_pair (0, 1) =
      Inr (int 0 = int (n ex_pair) - 1 \<or> \<not> other_zero (costMat ex_pair) 0 1)"
    by blast
  have "isIndependent ex_pair (0, 1) = Inr False" by code_simp
  with i have o: "other_zero (costMat ex_pair) 0 1" by simp
  show ?thesis by (intro conjI) (fact w none' run r o \<open>isIndependent ex_pair (0, 1) = Inr False\<close>)+
qed

text \<open>
  C3 as stated fails: in the matrix with rows (0, 0) and (1, 1) the zero at (0, 0) is in a
  real row and has another zero in its row, so \<open>_isIndependent\<close> rejects it; \<open>step2\<close>
  stars it.
\<close>

theorem step2_stars_dependent_zero:
  "init \<lparr>nrows = 2, ncols = 2, cells = [[0, 0], [1, 1]]\<rparr> = Inr ex_pair \<and>
   isIndependent ex_pair (0, 0) = Inr False \<and>
   step2 ex_pair =
     Inr (ex_pair\<lparr>starred := \<lparr>nrows = 2, ncols = 2, cells = [[True, False], [False, False]]\<rparr>\<rparr>, 3)"
  by code_simp

section \<open>The driver\<close>

lemma compute_returns_None: "compute s = (s, None)"
  by (simp add: compute_def)

text \<open>
  C1. \<open>compute\<close> returns at once, but what it returns is \<open>None\<close>, and it runs no step.
  On the solver built for the example of the specification (a valid input: three columns,
  two real rows, no negative entry) it returns \<open>None\<close> and the star grid it leaves has
  no star, so no real row is matched to a column.
\<close>

theorem compute_is_a_stub:
  "init ex_cost = Inr ex_solver \<and>
   snd (compute ex_solver) = None \<and>
   fst (compute ex_solver) = ex_solver \<and>
   cells (starred (fst (compute ex_solver))) =
     [[False, False, False], [False, False, False], [False, False, False]]"
  by code_simp

section \<open>Step 3\<close>

lemma unpack3_nd_item: "unpack3 (nd_item it) = Inl ValueError"
  by (simp add: nd_item_def)

lemma step3_unpack_fails:
  "step3 s = (if ndenumerate (starred s) = [] then Inr (s, 4) else Inl ValueError)"
  by (cases "ndenumerate (starred s)") (simp_all add: step3_def unpack3_nd_item)

lemma ndenumerate_empty: "ndenumerate A = [] \<longleftrightarrow> nrows A = 0 \<or> ncols A = 0"
  by (auto simp: ndenumerate_def scan_order_def product_concat_map)

text \<open>
  C5. The loop header of \<open>step3\<close> unpacks the 2-tuples of \<open>np.ndenumerate\<close> into three
  names, so the first iteration raises \<open>ValueError\<close> before the body runs. On the example
  solver, fresh (no star) and after \<open>step2\<close> (one star, in column 0, no column covered),
  \<open>step3\<close> raises: it neither covers column 0 nor returns 4.
\<close>

theorem step3_raises_on_example:
  "step3 ex_solver = Inl ValueError \<and>
   step2 ex_solver = Inr (ex_starred, 3) \<and>
   col_covered ex_starred = [False, False, False] \<and>
   step3 ex_starred = Inl ValueError"
  by code_simp

section \<open>Step 4\<close>

lemma step4_returns_None: "step4 s = Inr (s', r) \<Longrightarrow> r = None"
  by (auto simp: step4_def split: sum.splits prod.splits)

lemma step4_loop_exhausted:
  "findUncovZero s = Inr None \<Longrightarrow> step4_loop s = Inr (s, 6)"
  by (subst step4_loop.simps) simp

lemma step4_loop_path_start:
  "findUncovZero s = Inr (Some (r, c)) \<Longrightarrow> setitem (primed s) r c True = Inr P \<Longrightarrow>
   findStarInRow (s\<lparr>primed := P\<rparr>) r = Inr (- 1) \<Longrightarrow>
   step4_loop s = Inr (s\<lparr>primed := P, z1_r := Some r, z1_c := Some c\<rparr>, 5)"
  by (subst step4_loop.simps) simp

text \<open>
  C4. The loop of \<open>step4\<close> ends with its local variable \<open>step\<close> at 6 when no uncovered
  zero exists, and at 5, with Z1 recorded, when the primed zero has no star in its row.
  But \<open>step4\<close> has no \<open>return\<close>: it returns \<open>None\<close> in both cases. On the solver
  without a zero the local is 6 and the result \<open>None\<close>; on the example solver the zero
  (2, 2) is primed and recorded as Z1, the local is 5 and the result \<open>None\<close>.
\<close>

theorem step4_reports_nothing:
  "findUncovZero ex_nozero = Inr None \<and>
   step4_loop ex_nozero = Inr (ex_nozero, 6) \<and>
   step4 ex_nozero = Inr (ex_nozero, None) \<and>
   findUncovZero ex_solver = Inr (Some (2, 2)) \<and>
   findStarInRow ex_solver 2 = Inr (- 1) \<and>
   step4_loop ex_solver =
     Inr (ex_solver\<lparr>primed := \<lparr>nrows = 3, ncols = 3,
            cells = [[False, False, False], [False, False, False], [False, False, True]]\<rparr>,
          z1_r := Some 2, z1_c := Some 2\<rparr>, 5) \<and>
   step4 ex_solver =
     Inr (ex_solver\<lparr>primed := \<lparr>nrows = 3, ncols = 3,
            cells = [[False, False, False], [False, False, False], [False, False, True]]\<rparr>,
          z1_r := Some 2, z1_c := Some 2\<rparr>, None)"
  by code_simp

section \<open>Reset and step 5\<close>

text \<open>
  C10. \<open>reset\<close> replaces the two cover lists by lists of \<open>False\<close> of lengths \<open>n\<close> and
  \<open>m\<close> and the prime grid by a grid of \<open>False\<close> of the shape of the cost matrix, so
  every entry of the three is false; the star grid, the cost matrix, the recorded Z1
  coordinates and the dimensions are as before. \<open>step5\<close> does nothing but \<open>reset\<close>.
\<close>

theorem reset_frame:
  "row_covered (reset s) = replicate (n s) False \<and>
   col_covered (reset s) = replicate (m s) False \<and>
   primed (reset s) = np_full (shape (costMat s)) False \<and>
   (\<forall>b \<in> set (row_covered (reset s)). \<not> b) \<and>
   (\<forall>b \<in> set (col_covered (reset s)). \<not> b) \<and>
   (\<forall>row \<in> set (cells (primed (reset s))). \<forall>b \<in> set row. \<not> b) \<and>
   starred (reset s) = starred s \<and> costMat (reset s) = costMat s \<and>
   z1_r (reset s) = z1_r s \<and> z1_c (reset s) = z1_c s \<and>
   n (reset s) = n s \<and> m (reset s) = m s \<and>
   step5 s = (reset s, None)"
  by (simp add: reset_def step5_def np_full_def map_replicate_const)

theorem reset_frame_witness:
  "row_covered (reset ex_covered) = [False, False] \<and>
   col_covered (reset ex_covered) = [False] \<and>
   cells (primed (reset ex_covered)) = [[False], [False]] \<and>
   cells (starred (reset ex_covered)) = [[True], [False]] \<and>
   cells (costMat (reset ex_covered)) = [[0], [0]] \<and>
   z1_r (reset ex_covered) = Some 1 \<and> z1_c (reset ex_covered) = Some 0 \<and>
   fst (step5 ex_covered) = reset ex_covered"
  using reset_frame [of ex_covered]
  by (simp add: np_full_def shape_def numeral_2_eq_2)

end
